theory Spec2Isabelle
  imports Complex_Main "HOL-Library.Log_Nat" "HOL-Library.Sublist"
begin

section \<open>Constants and errors of codec.py\<close>

text \<open>
  The Python exceptions that the entropy coder can raise. Every \<open>raise\<close> of the source,
  and every failing subscript or dictionary lookup, is a branch returning \<open>Inl\<close>.
\<close>

datatype error = ValueError | KeyError | IndexError

datatype layer_type = LUMINANCE | CHROMINANCE

datatype dc_ac = DC | AC

text \<open>An AC symbol is the tuple \<open>(run, value)\<close>; \<open>EOB = (0, 0)\<close> and \<open>ZRL = (15, 0)\<close>.\<close>

type_synonym ac_pair = "nat \<times> int"

definition EOB :: ac_pair where
  "EOB = (0, 0)"

definition ZRL :: ac_pair where
  "ZRL = (15, 0)"

text \<open>
  The argument of \<open>encode_huffman\<close> and the items yielded by \<open>decode_huffman\<close> are either an
  integer (a differential DC) or a tuple (a run-length AC pair); the source tells them apart
  with \<open>isinstance(value, Iterable)\<close>, the model with the constructor.
\<close>

datatype huffman_value = DCValue int | ACValue ac_pair

text \<open>Bit arrays are Python strings of the characters 0 and 1.\<close>

type_synonym bits = string

text \<open>A block is a two-dimensional integer array, held as the list of its rows.\<close>

type_synonym block = "int list list"

text \<open>The input of the encoder and the result of the decoder: the keys y, cb and cr.\<close>

record ycbcr =
  Y :: "block list"
  Cb :: "block list"
  Cr :: "block list"

text \<open>The result of the encoder and the input of the decoder, \<open>ret[DC|AC][layer_type]\<close>.\<close>

record bitstreams =
  dc_luminance :: bits
  dc_chrominance :: bits
  ac_luminance :: bits
  ac_chrominance :: bits

section \<open>The category table\<close>

text \<open>
  \<open>HUFFMAN_CATEGORIES\<close>, row by row as in the source: \<open>range(a, b + 1)\<close> is the
  interval \<open>[a..b]\<close>.
\<close>

definition HUFFMAN_CATEGORIES :: "int list list" where
  "HUFFMAN_CATEGORIES = [
     [0],
     [-1, 1],
     [-3, -2, 2, 3],
     [-7..-4] @ [4..7],
     [-15..-8] @ [8..15],
     [-31..-16] @ [16..31],
     [-63..-32] @ [32..63],
     [-127..-64] @ [64..127],
     [-255..-128] @ [128..255],
     [-511..-256] @ [256..511],
     [-1023..-512] @ [512..1023],
     [-2047..-1024] @ [1024..2047],
     [-4095..-2048] @ [2048..4095],
     [-8191..-4096] @ [4096..8191],
     [-16383..-8192] @ [8192..16383],
     [-32767..-16384] @ [16384..32767]]"

text \<open>
  \<open>index_2d\<close>, the helper local to \<open>encode_huffman\<close>: the two nested \<open>enumerate\<close>
  loops return at the first element equal to the target, and the function raises
  \<open>ValueError\<close> when the loops run out.
\<close>

fun index_row :: "int list \<Rightarrow> int \<Rightarrow> nat \<Rightarrow> nat option" where
  "index_row [] target j = None"
| "index_row (element # row) target j =
     (if target = element then Some j else index_row row target (Suc j))"

fun index_rows :: "int list list \<Rightarrow> int \<Rightarrow> nat \<Rightarrow> error + nat \<times> nat" where
  "index_rows [] target i = Inl ValueError"
| "index_rows (row # table) target i =
     (case index_row row target 0 of
        Some j \<Rightarrow> Inr (i, j)
      | None \<Rightarrow> index_rows table target (Suc i))"

definition index_2d :: "int list list \<Rightarrow> int \<Rightarrow> error + nat \<times> nat" where
  "index_2d table target = index_rows table target 0"

text \<open>\<open>HUFFMAN_CATEGORIES[size][idx]\<close>, with the \<open>IndexError\<close> of either subscript.\<close>

definition category_value :: "nat \<Rightarrow> nat \<Rightarrow> error + int" where
  "category_value sz idx =
     (if sz < length HUFFMAN_CATEGORIES \<and> idx < length (HUFFMAN_CATEGORIES ! sz)
      then Inr (HUFFMAN_CATEGORIES ! sz ! idx)
      else Inl IndexError)"

text \<open>
  The canonical order of a category as the specification words it: for a size \<open>s \<ge> 1\<close> the
  values \<open>-(2^s - 1), \<dots>, -2^(s-1), 2^(s-1), \<dots>, 2^s - 1\<close>.
\<close>

definition canonical_order :: "nat \<Rightarrow> int list" where
  "canonical_order s = [- (2 ^ s - 1) .. - (2 ^ (s - 1))] @ [2 ^ (s - 1) .. 2 ^ s - 1]"

section \<open>The Huffman codeword tables\<close>

text \<open>
  \<open>HUFFMAN_CATEGORY_CODEWORD\<close>: the four \<open>bidict\<close> literals in the order of the source.
  The DC tables are keyed by the size, the AC tables by \<open>(run, size)\<close>, with \<open>EOB\<close> written
  \<open>(0, 0)\<close> and \<open>ZRL\<close> written \<open>(15, 0)\<close>.
\<close>

definition DC_LUMINANCE_CODEWORD :: "(nat \<times> string) list" where
  "DC_LUMINANCE_CODEWORD = [
     (0, ''00''), (1, ''010''), (2, ''011''), (3, ''100''),
     (4, ''101''), (5, ''110''), (6, ''1110''), (7, ''11110''),
     (8, ''111110''), (9, ''1111110''), (10, ''11111110''), (11, ''111111110'')]"

definition DC_CHROMINANCE_CODEWORD :: "(nat \<times> string) list" where
  "DC_CHROMINANCE_CODEWORD = [
     (0, ''00''), (1, ''01''), (2, ''10''), (3, ''110''),
     (4, ''1110''), (5, ''11110''), (6, ''111110''), (7, ''1111110''),
     (8, ''11111110''), (9, ''111111110''), (10, ''1111111110''), (11, ''11111111110'')]"

definition AC_LUMINANCE_CODEWORD :: "((nat \<times> nat) \<times> string) list" where
  "AC_LUMINANCE_CODEWORD = [
     ((0, 0), ''1010''), ((15, 0), ''11111111001''),
     ((0, 1), ''00''), ((0, 2), ''01''),
     ((0, 3), ''100''), ((0, 4), ''1011''),
     ((0, 5), ''11010''), ((0, 6), ''1111000''),
     ((0, 7), ''11111000''), ((0, 8), ''1111110110''),
     ((0, 9), ''1111111110000010''), ((0, 10), ''1111111110000011''),
     ((1, 1), ''1100''), ((1, 2), ''11011''),
     ((1, 3), ''1111001''), ((1, 4), ''111110110''),
     ((1, 5), ''11111110110''), ((1, 6), ''1111111110000100''),
     ((1, 7), ''1111111110000101''), ((1, 8), ''1111111110000110''),
     ((1, 9), ''1111111110000111''), ((1, 10), ''1111111110001000''),
     ((2, 1), ''11100''), ((2, 2), ''11111001''),
     ((2, 3), ''1111110111''), ((2, 4), ''111111110100''),
     ((2, 5), ''1111111110001001''), ((2, 6), ''1111111110001010''),
     ((2, 7), ''1111111110001011''), ((2, 8), ''1111111110001100''),
     ((2, 9), ''1111111110001101''), ((2, 10), ''1111111110001110''),
     ((3, 1), ''111010''), ((3, 2), ''111110111''),
     ((3, 3), ''111111110101''), ((3, 4), ''1111111110001111''),
     ((3, 5), ''1111111110010000''), ((3, 6), ''1111111110010001''),
     ((3, 7), ''1111111110010010''), ((3, 8), ''1111111110010011''),
     ((3, 9), ''1111111110010100''), ((3, 10), ''1111111110010101''),
     ((4, 1), ''111011''), ((4, 2), ''1111111000''),
     ((4, 3), ''1111111110010110''), ((4, 4), ''1111111110010111''),
     ((4, 5), ''1111111110011000''), ((4, 6), ''1111111110011001''),
     ((4, 7), ''1111111110011010''), ((4, 8), ''1111111110011011''),
     ((4, 9), ''1111111110011100''), ((4, 10), ''1111111110011101''),
     ((5, 1), ''1111010''), ((5, 2), ''11111110111''),
     ((5, 3), ''1111111110011110''), ((5, 4), ''1111111110011111''),
     ((5, 5), ''1111111110100000''), ((5, 6), ''1111111110100001''),
     ((5, 7), ''1111111110100010''), ((5, 8), ''1111111110100011''),
     ((5, 9), ''1111111110100100''), ((5, 10), ''1111111110100101''),
     ((6, 1), ''1111011''), ((6, 2), ''111111110110''),
     ((6, 3), ''1111111110100110''), ((6, 4), ''1111111110100111''),
     ((6, 5), ''1111111110101000''), ((6, 6), ''1111111110101001''),
     ((6, 7), ''1111111110101010''), ((6, 8), ''1111111110101011''),
     ((6, 9), ''1111111110101100''), ((6, 10), ''1111111110101101''),
     ((7, 1), ''11111010''), ((7, 2), ''111111110111''),
     ((7, 3), ''1111111110101110''), ((7, 4), ''1111111110101111''),
     ((7, 5), ''1111111110110000''), ((7, 6), ''1111111110110001''),
     ((7, 7), ''1111111110110010''), ((7, 8), ''1111111110110011''),
     ((7, 9), ''1111111110110100''), ((7, 10), ''1111111110110101''),
     ((8, 1), ''111111000''), ((8, 2), ''111111111000000''),
     ((8, 3), ''1111111110110110''), ((8, 4), ''1111111110110111''),
     ((8, 5), ''1111111110111000''), ((8, 6), ''1111111110111001''),
     ((8, 7), ''1111111110111010''), ((8, 8), ''1111111110111011''),
     ((8, 9), ''1111111110111100''), ((8, 10), ''1111111110111101''),
     ((9, 1), ''111111001''), ((9, 2), ''1111111110111110''),
     ((9, 3), ''1111111110111111''), ((9, 4), ''1111111111000000''),
     ((9, 5), ''1111111111000001''), ((9, 6), ''1111111111000010''),
     ((9, 7), ''1111111111000011''), ((9, 8), ''1111111111000100''),
     ((9, 9), ''1111111111000101''), ((9, 10), ''1111111111000110''),
     ((10, 1), ''111111010''), ((10, 2), ''1111111111000111''),
     ((10, 3), ''1111111111001000''), ((10, 4), ''1111111111001001''),
     ((10, 5), ''1111111111001010''), ((10, 6), ''1111111111001011''),
     ((10, 7), ''1111111111001100''), ((10, 8), ''1111111111001101''),
     ((10, 9), ''1111111111001110''), ((10, 10), ''1111111111001111''),
     ((11, 1), ''1111111001''), ((11, 2), ''1111111111010000''),
     ((11, 3), ''1111111111010001''), ((11, 4), ''1111111111010010''),
     ((11, 5), ''1111111111010011''), ((11, 6), ''1111111111010100''),
     ((11, 7), ''1111111111010101''), ((11, 8), ''1111111111010110''),
     ((11, 9), ''1111111111010111''), ((11, 10), ''1111111111011000''),
     ((12, 1), ''1111111010''), ((12, 2), ''1111111111011001''),
     ((12, 3), ''1111111111011010''), ((12, 4), ''1111111111011011''),
     ((12, 5), ''1111111111011100''), ((12, 6), ''1111111111011101''),
     ((12, 7), ''1111111111011110''), ((12, 8), ''1111111111011111''),
     ((12, 9), ''1111111111100000''), ((12, 10), ''1111111111100001''),
     ((13, 1), ''11111111000''), ((13, 2), ''1111111111100010''),
     ((13, 3), ''1111111111100011''), ((13, 4), ''1111111111100100''),
     ((13, 5), ''1111111111100101''), ((13, 6), ''1111111111100110''),
     ((13, 7), ''1111111111100111''), ((13, 8), ''1111111111101000''),
     ((13, 9), ''1111111111101001''), ((13, 10), ''1111111111101010''),
     ((14, 1), ''1111111111101011''), ((14, 2), ''1111111111101100''),
     ((14, 3), ''1111111111101101''), ((14, 4), ''1111111111101110''),
     ((14, 5), ''1111111111101111''), ((14, 6), ''1111111111110000''),
     ((14, 7), ''1111111111110001''), ((14, 8), ''1111111111110010''),
     ((14, 9), ''1111111111110011''), ((14, 10), ''1111111111110100''),
     ((15, 1), ''1111111111110101''), ((15, 2), ''1111111111110110''),
     ((15, 3), ''1111111111110111''), ((15, 4), ''1111111111111000''),
     ((15, 5), ''1111111111111001''), ((15, 6), ''1111111111111010''),
     ((15, 7), ''1111111111111011''), ((15, 8), ''1111111111111100''),
     ((15, 9), ''1111111111111101''), ((15, 10), ''1111111111111110'')]"

definition AC_CHROMINANCE_CODEWORD :: "((nat \<times> nat) \<times> string) list" where
  "AC_CHROMINANCE_CODEWORD = [
     ((0, 0), ''00''), ((15, 0), ''1111111010''),
     ((0, 1), ''01''), ((0, 2), ''100''),
     ((0, 3), ''1010''), ((0, 4), ''11000''),
     ((0, 5), ''11001''), ((0, 6), ''111000''),
     ((0, 7), ''1111000''), ((0, 8), ''111110100''),
     ((0, 9), ''1111110110''), ((0, 10), ''111111110100''),
     ((1, 1), ''1011''), ((1, 2), ''111001''),
     ((1, 3), ''11110110''), ((1, 4), ''111110101''),
     ((1, 5), ''11111110110''), ((1, 6), ''111111110101''),
     ((1, 7), ''1111111110001000''), ((1, 8), ''1111111110001001''),
     ((1, 9), ''1111111110001010''), ((1, 10), ''1111111110001011''),
     ((2, 1), ''11010''), ((2, 2), ''11110111''),
     ((2, 3), ''1111110111''), ((2, 4), ''111111110110''),
     ((2, 5), ''111111111000010''), ((2, 6), ''1111111110001100''),
     ((2, 7), ''1111111110001101''), ((2, 8), ''1111111110001110''),
     ((2, 9), ''1111111110001111''), ((2, 10), ''1111111110010000''),
     ((3, 1), ''11011''), ((3, 2), ''11111000''),
     ((3, 3), ''1111111000''), ((3, 4), ''111111110111''),
     ((3, 5), ''1111111110010001''), ((3, 6), ''1111111110010010''),
     ((3, 7), ''1111111110010011''), ((3, 8), ''1111111110010100''),
     ((3, 9), ''1111111110010101''), ((3, 10), ''1111111110010110''),
     ((4, 1), ''111010''), ((4, 2), ''111110110''),
     ((4, 3), ''1111111110010111''), ((4, 4), ''1111111110011000''),
     ((4, 5), ''1111111110011001''), ((4, 6), ''1111111110011010''),
     ((4, 7), ''1111111110011011''), ((4, 8), ''1111111110011100''),
     ((4, 9), ''1111111110011101''), ((4, 10), ''1111111110011110''),
     ((5, 1), ''111011''), ((5, 2), ''1111111001''),
     ((5, 3), ''1111111110011111''), ((5, 4), ''1111111110100000''),
     ((5, 5), ''1111111110100001''), ((5, 6), ''1111111110100010''),
     ((5, 7), ''1111111110100011''), ((5, 8), ''1111111110100100''),
     ((5, 9), ''1111111110100101''), ((5, 10), ''1111111110100110''),
     ((6, 1), ''1111001''), ((6, 2), ''11111110111''),
     ((6, 3), ''1111111110100111''), ((6, 4), ''1111111110101000''),
     ((6, 5), ''1111111110101001''), ((6, 6), ''1111111110101010''),
     ((6, 7), ''1111111110101011''), ((6, 8), ''1111111110101100''),
     ((6, 9), ''1111111110101101''), ((6, 10), ''1111111110101110''),
     ((7, 1), ''1111010''), ((7, 2), ''111111110000''),
     ((7, 3), ''1111111110101111''), ((7, 4), ''1111111110110000''),
     ((7, 5), ''1111111110110001''), ((7, 6), ''1111111110110010''),
     ((7, 7), ''1111111110110011''), ((7, 8), ''1111111110110100''),
     ((7, 9), ''1111111110110101''), ((7, 10), ''1111111110110110''),
     ((8, 1), ''11111001''), ((8, 2), ''1111111110110111''),
     ((8, 3), ''1111111110111000''), ((8, 4), ''1111111110111001''),
     ((8, 5), ''1111111110111010''), ((8, 6), ''1111111110111011''),
     ((8, 7), ''1111111110111100''), ((8, 8), ''1111111110111101''),
     ((8, 9), ''1111111110111110''), ((8, 10), ''1111111110111111''),
     ((9, 1), ''111110111''), ((9, 2), ''1111111111000000''),
     ((9, 3), ''1111111111000001''), ((9, 4), ''1111111111000010''),
     ((9, 5), ''1111111111000011''), ((9, 6), ''1111111111000100''),
     ((9, 7), ''1111111111000101''), ((9, 8), ''1111111111000110''),
     ((9, 9), ''1111111111000111''), ((9, 10), ''1111111111001000''),
     ((10, 1), ''111111000''), ((10, 2), ''1111111111001001''),
     ((10, 3), ''1111111111001010''), ((10, 4), ''1111111111001011''),
     ((10, 5), ''1111111111001100''), ((10, 6), ''1111111111001101''),
     ((10, 7), ''1111111111001110''), ((10, 8), ''1111111111001111''),
     ((10, 9), ''1111111111010000''), ((10, 10), ''1111111111010001''),
     ((11, 1), ''111111001''), ((11, 2), ''1111111111010010''),
     ((11, 3), ''1111111111010011''), ((11, 4), ''1111111111010100''),
     ((11, 5), ''1111111111010101''), ((11, 6), ''1111111111010110''),
     ((11, 7), ''1111111111010111''), ((11, 8), ''1111111111011000''),
     ((11, 9), ''1111111111011001''), ((11, 10), ''1111111111011010''),
     ((12, 1), ''111111010''), ((12, 2), ''1111111111011011''),
     ((12, 3), ''1111111111011100''), ((12, 4), ''1111111111011101''),
     ((12, 5), ''1111111111011110''), ((12, 6), ''1111111111011111''),
     ((12, 7), ''1111111111100000''), ((12, 8), ''1111111111100001''),
     ((12, 9), ''1111111111100010''), ((12, 10), ''1111111111100011''),
     ((13, 1), ''11111111001''), ((13, 2), ''1111111111100100''),
     ((13, 3), ''1111111111100101''), ((13, 4), ''1111111111100110''),
     ((13, 5), ''1111111111100111''), ((13, 6), ''1111111111101000''),
     ((13, 7), ''1111111111101001''), ((13, 8), ''1111111111101010''),
     ((13, 9), ''1111111111101011''), ((13, 10), ''1111111111101100''),
     ((14, 1), ''11111111100000''), ((14, 2), ''1111111111101101''),
     ((14, 3), ''1111111111101110''), ((14, 4), ''1111111111101111''),
     ((14, 5), ''1111111111110000''), ((14, 6), ''1111111111110001''),
     ((14, 7), ''1111111111110010''), ((14, 8), ''1111111111110011''),
     ((14, 9), ''1111111111110100''), ((14, 10), ''1111111111110101''),
     ((15, 1), ''111111111000011''), ((15, 2), ''1111111111110110''),
     ((15, 3), ''1111111111110111''), ((15, 4), ''1111111111111000''),
     ((15, 5), ''1111111111111001''), ((15, 6), ''1111111111111010''),
     ((15, 7), ''1111111111111011''), ((15, 8), ''1111111111111100''),
     ((15, 9), ''1111111111111101''), ((15, 10), ''1111111111111110'')]"

definition HUFFMAN_CATEGORY_CODEWORD_DC :: "layer_type \<Rightarrow> (nat \<times> bits) list" where
  "HUFFMAN_CATEGORY_CODEWORD_DC layer_type =
     (case layer_type of
        LUMINANCE \<Rightarrow> DC_LUMINANCE_CODEWORD
      | CHROMINANCE \<Rightarrow> DC_CHROMINANCE_CODEWORD)"

definition HUFFMAN_CATEGORY_CODEWORD_AC :: "layer_type \<Rightarrow> ((nat \<times> nat) \<times> bits) list" where
  "HUFFMAN_CATEGORY_CODEWORD_AC layer_type =
     (case layer_type of
        LUMINANCE \<Rightarrow> AC_LUMINANCE_CODEWORD
      | CHROMINANCE \<Rightarrow> AC_CHROMINANCE_CODEWORD)"

text \<open>
  A \<open>bidict\<close> is read in both directions: \<open>table[key]\<close> and \<open>table.inv[codeword]\<close>. A missing
  key raises \<open>KeyError\<close>.
\<close>

definition lookup :: "('k \<times> 'v) list \<Rightarrow> 'k \<Rightarrow> error + 'v" where
  "lookup table key = (case map_of table key of None \<Rightarrow> Inl KeyError | Some v \<Rightarrow> Inr v)"

definition inv_of :: "('k \<times> 'v) list \<Rightarrow> 'v \<Rightarrow> 'k option" where
  "inv_of table = map_of (map (\<lambda>(key, codeword). (codeword, key)) table)"

text \<open>A code is prefix-free when no codeword is a proper prefix of another one.\<close>

definition prefix_free :: "bits list \<Rightarrow> bool" where
  "prefix_free codewords = (\<forall>c \<in> set codewords. \<forall>d \<in> set codewords. \<not> strict_prefix c d)"

text \<open>What the decoder needs of a table: keys and codewords without repetition, a prefix-free
  code, and codewords of 1 to 16 bits, the width of the window that the decoder reads.\<close>

definition good_table :: "('k \<times> bits) list \<Rightarrow> bool" where
  "good_table t =
     (distinct (map fst t) \<and> distinct (map snd t) \<and> prefix_free (map snd t) \<and>
      list_all (\<lambda>c. 0 < length c \<and> length c \<le> 16) (map snd t))"

text \<open>
  An executable check of the prefix property: the codewords are entered one by one into a binary
  trie, and the insertion fails when the new codeword ends on an inner node, passes through
  the end of an earlier codeword, or is there already.
\<close>

datatype trie = Empty | Word | Node trie trie

fun trie_insert :: "bits \<Rightarrow> trie \<Rightarrow> trie option" where
  "trie_insert [] Empty = Some Word"
| "trie_insert [] Word = None"
| "trie_insert [] (Node l r) = None"
| "trie_insert (c # cs) Word = None"
| "trie_insert (c # cs) Empty =
     (if c = CHR ''0'' then map_option (\<lambda>l. Node l Empty) (trie_insert cs Empty)
      else map_option (\<lambda>r. Node Empty r) (trie_insert cs Empty))"
| "trie_insert (c # cs) (Node l r) =
     (if c = CHR ''0'' then map_option (\<lambda>l'. Node l' r) (trie_insert cs l)
      else map_option (\<lambda>r'. Node l r') (trie_insert cs r))"

fun trie_build :: "bits list \<Rightarrow> trie \<Rightarrow> trie option" where
  "trie_build [] t = Some t"
| "trie_build (w # ws) t =
     (case trie_insert w t of None \<Rightarrow> None | Some t' \<Rightarrow> trie_build ws t')"

definition is_prefix_code :: "bits list \<Rightarrow> bool" where
  "is_prefix_code ws = (trie_build ws Empty \<noteq> None)"

fun paths :: "trie \<Rightarrow> bool list set" where
  "paths Empty = {}"
| "paths Word = {[]}"
| "paths (Node l r) = (#) True ` paths l \<union> (#) False ` paths r"

definition path :: "bits \<Rightarrow> bool list" where
  "path w = map (\<lambda>c. c = CHR ''0'') w"

section \<open>encode_huffman\<close>

text \<open>
  \<open>'{:0{padding}b}'.format(idx, padding=size)\<close>: the binary digits of \<open>idx\<close>, most
  significant first, filled with zeros on the left up to the width \<open>padding\<close>, and longer
  than that when the digits need it.
\<close>

fun bin_digits :: "nat \<Rightarrow> bits" where
  "bin_digits n =
     (if n < 2 then [if n = 1 then CHR ''1'' else CHR ''0'']
      else bin_digits (n div 2) @ [if n mod 2 = 1 then CHR ''1'' else CHR ''0''])"

declare bin_digits.simps [simp del]

definition format_bin :: "nat \<Rightarrow> nat \<Rightarrow> bits" where
  "format_bin idx padding =
     replicate (padding - length (bin_digits idx)) CHR ''0'' @ bin_digits idx"

fun encode_huffman :: "huffman_value \<Rightarrow> layer_type \<Rightarrow> error + bits" where
  "encode_huffman (DCValue v) layer_type =
     (if v \<le> -2048 \<or> v \<ge> 2048 then Inl ValueError
      else case index_2d HUFFMAN_CATEGORIES v of
        Inl e \<Rightarrow> Inl e
      | Inr (sz, fixed_code_idx) \<Rightarrow>
          (case lookup (HUFFMAN_CATEGORY_CODEWORD_DC layer_type) sz of
             Inl e \<Rightarrow> Inl e
           | Inr codeword \<Rightarrow>
               if sz = 0 then Inr codeword
               else Inr (codeword @ format_bin fixed_code_idx sz)))"
| "encode_huffman (ACValue (run, nonzero)) layer_type =
     (if (run, nonzero) = EOB \<or> (run, nonzero) = ZRL
      then lookup (HUFFMAN_CATEGORY_CODEWORD_AC layer_type) (run, 0)
      else if nonzero = 0 \<or> nonzero \<le> -1024 \<or> nonzero \<ge> 1024 then Inl ValueError
      else case index_2d HUFFMAN_CATEGORIES nonzero of
        Inl e \<Rightarrow> Inl e
      | Inr (sz, fixed_code_idx) \<Rightarrow>
          (case lookup (HUFFMAN_CATEGORY_CODEWORD_AC layer_type) (run, sz) of
             Inl e \<Rightarrow> Inl e
           | Inr codeword \<Rightarrow> Inr (codeword @ format_bin fixed_code_idx sz)))"

text \<open>\<open>''.join(encode_huffman(v, layer_type) for v in values)\<close>: the first error aborts the join.\<close>

fun encode_all :: "huffman_value list \<Rightarrow> layer_type \<Rightarrow> error + bits" where
  "encode_all [] layer_type = Inr []"
| "encode_all (v # values) layer_type =
     (case encode_huffman v layer_type of
        Inl e \<Rightarrow> Inl e
      | Inr code \<Rightarrow>
          (case encode_all values layer_type of
             Inl e \<Rightarrow> Inl e
           | Inr codes \<Rightarrow> Inr (code @ codes)))"

text \<open>The mode in which \<open>decode_huffman\<close> yields a value of the same kind.\<close>

definition mode_of :: "huffman_value \<Rightarrow> dc_ac" where
  "mode_of v = (case v of DCValue _ \<Rightarrow> DC | ACValue _ \<Rightarrow> AC)"

section \<open>decode_huffman\<close>

text \<open>
  \<open>int(fixed, 2)\<close> on a string of binary digits. The empty string and a string with another
  character raise \<open>ValueError\<close> (the signs, blanks and prefixes that Python's \<open>int\<close> also
  accepts do not occur in a bit array and are not modelled).
\<close>

definition int2 :: "bits \<Rightarrow> error + nat" where
  "int2 fixed =
     (if fixed = [] \<or> \<not> list_all (\<lambda>c. c = CHR ''0'' \<or> c = CHR ''1'') fixed
      then Inl ValueError
      else Inr (foldl (\<lambda>acc c. 2 * acc + (if c = CHR ''1'' then 1 else 0)) 0 fixed))"

abbreviation bitval :: "nat \<Rightarrow> char \<Rightarrow> nat" where
  "bitval \<equiv> (\<lambda>acc c. 2 * acc + (if c = CHR ''1'' then 1 else 0))"

text \<open>The local function \<open>diff_value\<close>; \<open>bit_seq[idx:idx + size]\<close> is \<open>take size (drop idx bit_seq)\<close>.\<close>

definition diff_value :: "bits \<Rightarrow> nat \<Rightarrow> nat \<Rightarrow> error + nat" where
  "diff_value bit_seq idx sz =
     (if idx \<ge> length bit_seq \<or> idx + sz > length bit_seq then Inl IndexError
      else int2 (take sz (drop idx bit_seq)))"

text \<open>
  The inner \<open>while current_slice\<close> loop: look the slice up in the inverse table and drop its
  last bit until it is found; \<open>None\<close> is the loop's \<open>else\<close> branch, the \<open>KeyError\<close>.
\<close>

function find_codeword :: "(bits \<Rightarrow> 'k option) \<Rightarrow> bits \<Rightarrow> ('k \<times> bits) option" where
  "find_codeword table_inv current_slice =
     (if current_slice = [] then None
      else case table_inv current_slice of
        Some key \<Rightarrow> Some (key, current_slice)
      | None \<Rightarrow> find_codeword table_inv (butlast current_slice))"
  by pat_completeness auto
termination
  by (relation "measure (\<lambda>(table_inv, current_slice). length current_slice)") auto

declare find_codeword.simps [simp del]

text \<open>
  One round of the outer loop at \<open>current_idx\<close>: the value it yields and the next value of
  \<open>current_idx\<close>.
\<close>

definition decode_step :: "bits \<Rightarrow> dc_ac \<Rightarrow> layer_type \<Rightarrow> nat \<Rightarrow> error + huffman_value \<times> nat" where
  "decode_step bit_seq dcac layer_type current_idx =
     (let remaining_len = length bit_seq - current_idx;
          current_slice = take (if remaining_len > 16 then 16 else remaining_len)
                            (drop current_idx bit_seq)
      in case dcac of
        DC \<Rightarrow>
          (case find_codeword (inv_of (HUFFMAN_CATEGORY_CODEWORD_DC layer_type)) current_slice of
             None \<Rightarrow> Inl KeyError
           | Some (sz, found) \<Rightarrow>
               if sz = 0 then Inr (DCValue 0, current_idx + length found + sz)
               else case diff_value bit_seq (current_idx + length found) sz of
                 Inl e \<Rightarrow> Inl e
               | Inr idx \<Rightarrow>
                   (case category_value sz idx of
                      Inl e \<Rightarrow> Inl e
                    | Inr v \<Rightarrow> Inr (DCValue v, current_idx + length found + sz)))
      | AC \<Rightarrow>
          (case find_codeword (inv_of (HUFFMAN_CATEGORY_CODEWORD_AC layer_type)) current_slice of
             None \<Rightarrow> Inl KeyError
           | Some ((run, sz), found) \<Rightarrow>
               if (run, int sz) = EOB \<or> (run, int sz) = ZRL
               then Inr (ACValue (run, int sz), current_idx + length found + sz)
               else case diff_value bit_seq (current_idx + length found) sz of
                 Inl e \<Rightarrow> Inl e
               | Inr idx \<Rightarrow>
                   (case category_value sz idx of
                      Inl e \<Rightarrow> Inl e
                    | Inr v \<Rightarrow> Inr (ACValue (run, v), current_idx + length found + sz))))"

text \<open>
  The outer \<open>while current_idx < bit_len\<close> loop. The source is a generator; each of its
  consumers in this module drains it into a tuple, so an exception at any item aborts the whole
  result, and the model returns either the error or the list of all items.
\<close>

function decode_from :: "bits \<Rightarrow> dc_ac \<Rightarrow> layer_type \<Rightarrow> nat \<Rightarrow> error + huffman_value list" where
  "decode_from bit_seq dcac layer_type current_idx =
     (if current_idx < length bit_seq then
        (case decode_step bit_seq dcac layer_type current_idx of
           Inl e \<Rightarrow> Inl e
         | Inr (v, next_idx) \<Rightarrow>
             (case decode_from bit_seq dcac layer_type next_idx of
                Inl e \<Rightarrow> Inl e
              | Inr vs \<Rightarrow> Inr (v # vs)))
      else Inr [])"
  by pat_completeness auto
termination
proof (relation "measure (\<lambda>(bit_seq, dcac, layer_type, current_idx). length bit_seq - current_idx)",
    goal_cases)
  case 1
  show ?case by simp
next
  case (2 bit_seq dcac layer_type current_idx p v next_idx)
  have found_dc: "find_codeword t s = Some (k, f) \<Longrightarrow> f \<noteq> []"
    for t :: "bits \<Rightarrow> nat option" and s k f
  proof (induction t s rule: find_codeword.induct)
    case (1 table_inv current_slice)
    then show ?case
      by (subst (asm) (2) find_codeword.simps) (auto split: if_splits option.splits)
  qed
  have found_ac: "find_codeword t s = Some (k, f) \<Longrightarrow> f \<noteq> []"
    for t :: "bits \<Rightarrow> (nat \<times> nat) option" and s k f
  proof (induction t s rule: find_codeword.induct)
    case (1 table_inv current_slice)
    then show ?case
      by (subst (asm) (2) find_codeword.simps) (auto split: if_splits option.splits)
  qed
  have step: "decode_step bit_seq dcac layer_type current_idx = Inr (v, next_idx)"
    using 2(2) 2(3) by simp
  have "current_idx < next_idx"
  proof (cases dcac)
    case DC
    then obtain k f where "find_codeword (inv_of (HUFFMAN_CATEGORY_CODEWORD_DC layer_type))
        (take (if length bit_seq - current_idx > 16 then 16 else length bit_seq - current_idx)
           (drop current_idx bit_seq)) = Some (k, f)" and "next_idx = current_idx + length f + k"
      using step
      by (auto simp: decode_step_def Let_def split: option.splits if_splits sum.splits)
    then show ?thesis using found_dc by fastforce
  next
    case AC
    then obtain r k f where "find_codeword (inv_of (HUFFMAN_CATEGORY_CODEWORD_AC layer_type))
        (take (if length bit_seq - current_idx > 16 then 16 else length bit_seq - current_idx)
           (drop current_idx bit_seq)) = Some ((r, k), f)" and "next_idx = current_idx + length f + k"
      using step
      by (auto simp: decode_step_def Let_def split: option.splits if_splits sum.splits)
    then show ?thesis using found_ac by fastforce
  qed
  then show ?case using 2(1) by simp
qed

declare decode_from.simps [simp del]

definition decode_huffman :: "bits \<Rightarrow> dc_ac \<Rightarrow> layer_type \<Rightarrow> error + huffman_value list" where
  "decode_huffman bit_seq dcac layer_type = decode_from bit_seq dcac layer_type 0"

section \<open>Differential coding of the DC coefficients\<close>

text \<open>
  The items of the sequence are Python integers, which do not overflow, or the scalars of a
  numpy integer array, whose arithmetic stays in the array's dtype and wraps around: a signed
  dtype of \<open>w\<close> bits (\<open>int8\<close>, \<open>int16\<close>, \<open>int64\<close>) in two's complement, an unsigned one
  (\<open>uint8\<close>) modulo \<open>2\<^sup>w\<close>.
\<close>

datatype dtype = Signed nat | Unsigned nat | Unbounded

fun wrap :: "dtype \<Rightarrow> int \<Rightarrow> int" where
  "wrap (Signed w) v = (v + 2 ^ (w - 1)) mod 2 ^ w - 2 ^ (w - 1)"
| "wrap (Unsigned w) v = v mod 2 ^ w"
| "wrap Unbounded v = v"

text \<open>The values that a dtype holds.\<close>

definition fits :: "dtype \<Rightarrow> int \<Rightarrow> bool" where
  "fits dt v = (wrap dt v = v)"

text \<open>
  \<open>encode_differential\<close>: the item itself at index 0, the difference to the item before it
  elsewhere, computed in the dtype of the items.
\<close>

definition encode_differential :: "dtype \<Rightarrow> int list \<Rightarrow> int list" where
  "encode_differential dt seq =
     map (\<lambda>idx. if idx \<noteq> 0 then wrap dt (seq ! idx - seq ! (idx - 1)) else seq ! idx)
       [0..<length seq]"

text \<open>\<open>decode_differential\<close> is \<open>itertools.accumulate\<close>: the running sums.\<close>

fun accumulate_from :: "int \<Rightarrow> int list \<Rightarrow> int list" where
  "accumulate_from acc [] = []"
| "accumulate_from acc (item # seq) = (acc + item) # accumulate_from (acc + item) seq"

definition decode_differential :: "int list \<Rightarrow> int list" where
  "decode_differential seq =
     (case seq of [] \<Rightarrow> [] | item # rest \<Rightarrow> item # accumulate_from item rest)"

section \<open>Run-length coding of the AC coefficients\<close>

text \<open>
  \<open>[(len(tuple(group)), key) for key, group in itertools.groupby(seq)]\<close>: the maximal runs of
  equal items, each as its length and its item.
\<close>

function groupby :: "int list \<Rightarrow> (nat \<times> int) list" where
  "groupby [] = []"
| "groupby (key # seq) =
     (Suc (length (takeWhile (\<lambda>item. item = key) seq)), key)
       # groupby (dropWhile (\<lambda>item. item = key) seq)"
  by pat_completeness auto
termination
  by (relation "measure length") (auto simp: less_Suc_eq_le length_dropWhile_le)

text \<open>The \<open>while length >= 16\<close> loop: one \<open>ZRL\<close> for every sixteen zeros.\<close>

fun zrl_loop :: "nat \<Rightarrow> ac_pair list \<Rightarrow> nat \<times> ac_pair list" where
  "zrl_loop len ret = (if len \<ge> 16 then zrl_loop (len - 16) (ret @ [ZRL]) else (len, ret))"

declare zrl_loop.simps [simp del]

text \<open>
  The \<open>for idx, (length, key) in enumerate(groups)\<close> loop, with its state \<open>borrow\<close> and
  \<open>ret\<close>. The first argument is the whole list, which the loop reads at \<open>idx + 1\<close>; that
  subscript raises \<open>IndexError\<close> past the end.
\<close>

fun run_length_loop ::
  "(nat \<times> int) list \<Rightarrow> nat \<Rightarrow> (nat \<times> int) list \<Rightarrow> bool \<Rightarrow> ac_pair list \<Rightarrow> error + ac_pair list"
where
  "run_length_loop groups idx [] borrow ret = Inr ret"
| "run_length_loop groups idx ((len0, key) # rest) borrow ret =
     (let len = (if borrow then len0 - 1 else len0) in
      if len = 0 then run_length_loop groups (Suc idx) rest False ret
      else if key = 0 then
        (case zrl_loop len ret of
           (len', ret') \<Rightarrow>
             if idx + 1 < length groups
             then run_length_loop groups (Suc idx) rest True
                    (ret' @ [(len', snd (groups ! (idx + 1)))])
             else Inl IndexError)
      else run_length_loop groups (Suc idx) rest False (ret @ replicate len (0, key)))"

text \<open>\<open>groups[-1]\<close> raises \<open>IndexError\<close> on the empty list.\<close>

definition encode_run_length :: "int list \<Rightarrow> error + ac_pair list" where
  "encode_run_length seq =
     (let groups = groupby seq in
      if groups = [] then Inl IndexError
      else
        let groups = (if snd (last groups) = 0 then butlast groups else groups) in
        case run_length_loop groups 0 groups False [] of
          Inl e \<Rightarrow> Inl e
        | Inr ret \<Rightarrow> Inr (ret @ [EOB]))"

text \<open>\<open>tuple(item for l, k in seq for item in [0] * l + [k])[:-1]\<close>.\<close>

definition decode_run_length :: "ac_pair list \<Rightarrow> int list" where
  "decode_run_length seq = butlast (concat (map (\<lambda>(l, k). replicate l 0 @ [k]) seq))"

text \<open>A sequence without the zeros at its end, for stating what the decoder returns.\<close>

definition without_trailing_zeros :: "int list \<Rightarrow> int list" where
  "without_trailing_zeros seq = rev (dropWhile (\<lambda>item. item = 0) (rev seq))"

text \<open>The items that a list of groups and a list of run-length pairs stand for.\<close>

definition ungroup :: "(nat \<times> int) list \<Rightarrow> int list" where
  "ungroup groups = concat (map (\<lambda>(len, key). replicate len key) groups)"

definition flat :: "ac_pair list \<Rightarrow> int list" where
  "flat seq = concat (map (\<lambda>(l, k). replicate l 0 @ [k]) seq)"

text \<open>
  The symbols that the loop of \<open>encode_run_length\<close> appends: \<open>ZRL\<close>, or a run of at most 15
  zeros with a nonzero item of the sequence.
\<close>

definition valid_symbol :: "int set \<Rightarrow> ac_pair \<Rightarrow> bool" where
  "valid_symbol vals p = (p = ZRL \<or> (fst p \<le> 15 \<and> snd p \<noteq> 0 \<and> snd p \<in> vals))"

section \<open>Zig-zag order\<close>

text \<open>
  The indices start at 0 and the only decrement is under \<open>max(0, \<cdot>)\<close>, so they are natural
  numbers; \<open>size - 1\<close> is \<open>-1\<close> in Python only for \<open>size = 0\<close>, where the comparison fails
  as it does here.
\<close>

definition move_zig_zag_idx :: "nat \<Rightarrow> nat \<Rightarrow> nat \<Rightarrow> nat \<times> nat" where
  "move_zig_zag_idx i j sz = (if j < sz - 1 then (max 0 (i - 1), j + 1) else (i + 1, j))"

text \<open>
  The step that both loops make after each item, on the pair \<open>(x, y)\<close>:
  \<open>x, y = move_zig_zag_idx(x, y, size)\<close> on an odd diagonal and
  \<open>y, x = move_zig_zag_idx(y, x, size)\<close> on an even one.
\<close>

definition zig_zag_step :: "nat \<Rightarrow> nat \<times> nat \<Rightarrow> nat \<times> nat" where
  "zig_zag_step sz p =
     (case p of (x, y) \<Rightarrow>
        if (x + y) mod 2 = 1 then move_zig_zag_idx x y sz
        else (case move_zig_zag_idx y x sz of (y', x') \<Rightarrow> (x', y')))"

text \<open>
  The cursor after \<open>k\<close> steps from the corner, the cells of a \<open>sz \<times> sz\<close> array, and the place
  of a cell in the zig-zag order: its diagonal, and on the diagonal the coordinate that grows
  (\<open>x\<close> on an even diagonal, \<open>y\<close> on an odd one).
\<close>

definition zig_zag_pos :: "nat \<Rightarrow> nat \<Rightarrow> nat \<times> nat" where
  "zig_zag_pos sz k = (zig_zag_step sz ^^ k) (0, 0)"

definition in_range :: "nat \<Rightarrow> nat \<times> nat \<Rightarrow> bool" where
  "in_range sz p = (fst p < sz \<and> snd p < sz)"

definition diag_key :: "nat \<times> nat \<Rightarrow> nat \<times> nat" where
  "diag_key p = (fst p + snd p, if (fst p + snd p) mod 2 = 1 then snd p else fst p)"

abbreviation zz_less :: "(nat \<times> nat) \<Rightarrow> (nat \<times> nat) \<Rightarrow> bool" where
  "zz_less p q \<equiv> (diag_key p, diag_key q) \<in> less_than <*lex*> less_than"

text \<open>A \<open>sz \<times> sz\<close> array, and its element \<open>data[y][x]\<close> at the cursor \<open>(x, y)\<close>.\<close>

definition square :: "nat \<Rightarrow> block \<Rightarrow> bool" where
  "square sz data = (length data = sz \<and> list_all (\<lambda>row. length row = sz) data)"

definition cell :: "block \<Rightarrow> nat \<times> nat \<Rightarrow> int" where
  "cell data p = data ! snd p ! fst p"

text \<open>
  \<open>data.shape\<close> of a two-dimensional array: a numpy array is rectangular, so the length of
  the first row is the number of columns.
\<close>

definition shape :: "block \<Rightarrow> nat \<times> nat" where
  "shape data = (length data, (case data of [] \<Rightarrow> 0 | row # _ \<Rightarrow> length row))"

text \<open>
  The loop of \<open>iter_zig_zag\<close>, once for each of the \<open>n\<close> items of \<open>np.nditer(data)\<close>; the
  subscript \<open>data[y][x]\<close> raises \<open>IndexError\<close> outside the array.
\<close>

fun zig_zag_read :: "block \<Rightarrow> nat \<Rightarrow> nat \<times> nat \<Rightarrow> error + int list" where
  "zig_zag_read data 0 p = Inr []"
| "zig_zag_read data (Suc n) p =
     (case p of (x, y) \<Rightarrow>
        if y < length data \<and> x < length (data ! y) then
          (case zig_zag_read data n (zig_zag_step (fst (shape data)) p) of
             Inl e \<Rightarrow> Inl e
           | Inr items \<Rightarrow> Inr (data ! y ! x # items))
        else Inl IndexError)"

text \<open>
  \<open>iter_zig_zag\<close>, drained into a list as its caller does. \<open>np.nditer\<close> refuses an array
  without elements with \<open>ValueError\<close>.
\<close>

definition iter_zig_zag :: "block \<Rightarrow> error + int list" where
  "iter_zig_zag data =
     (if fst (shape data) \<noteq> snd (shape data) then Inl ValueError
      else if fst (shape data) * snd (shape data) = 0 then Inl ValueError
      else zig_zag_read data (fst (shape data) * snd (shape data)) (0, 0))"

text \<open>The loop of \<open>smallest_square_larger_than\<close> over \<open>itertools.count()\<close>.\<close>

function smallest_square_from :: "nat \<Rightarrow> nat \<Rightarrow> nat" where
  "smallest_square_from ret v = (if ret * ret \<ge> v then ret else smallest_square_from (Suc ret) v)"
  by pat_completeness auto
termination
  by (relation "measure (\<lambda>(ret, v). v - ret)") (auto simp: not_le intro: diff_less_mono2 le_square le_less_trans)

declare smallest_square_from.simps [simp del]

definition smallest_square_larger_than :: "nat \<Rightarrow> nat" where
  "smallest_square_larger_than v = smallest_square_from 0 v"

text \<open>
  \<open>np.empty((size, size), dtype=int)\<close>: an array whose content is whatever the memory holds,
  here the values of an arbitrary function \<open>garbage\<close> of the row and the column.
\<close>

text \<open>The memory that happens to hold zeros.\<close>

definition zeroed :: "nat \<Rightarrow> nat \<Rightarrow> int" where
  "zeroed r c = 0"

definition np_empty :: "(nat \<Rightarrow> nat \<Rightarrow> int) \<Rightarrow> nat \<Rightarrow> block" where
  "np_empty garbage sz = map (\<lambda>r. map (\<lambda>c. garbage r c) [0..<sz]) [0..<sz]"

text \<open>
  The loop of \<open>inverse_iter_zig_zag\<close>; the assignment \<open>ret[y][x] = value\<close> raises
  \<open>IndexError\<close> outside the array.
\<close>

fun zig_zag_write :: "block \<Rightarrow> int list \<Rightarrow> nat \<Rightarrow> nat \<times> nat \<Rightarrow> error + block" where
  "zig_zag_write ret [] sz p = Inr ret"
| "zig_zag_write ret (v # seq) sz p =
     (case p of (x, y) \<Rightarrow>
        if y < length ret \<and> x < length (ret ! y)
        then zig_zag_write (ret[y := (ret ! y)[x := v]]) seq sz (zig_zag_step sz p)
        else Inl IndexError)"

text \<open>
  \<open>inverse_iter_zig_zag(seq, size=None, fill=0)\<close>; \<open>(fill, ) * n\<close> is empty for a negative
  \<open>n\<close>, as the truncating subtraction makes it here.
\<close>

definition inverse_iter_zig_zag ::
  "(nat \<Rightarrow> nat \<Rightarrow> int) \<Rightarrow> int list \<Rightarrow> nat option \<Rightarrow> int \<Rightarrow> error + block" where
  "inverse_iter_zig_zag garbage seq size_arg fill =
     (let sz = (case size_arg of None \<Rightarrow> smallest_square_larger_than (length seq) | Some s \<Rightarrow> s);
          seq = seq @ replicate (sz * sz - length seq) fill
      in zig_zag_write (np_empty garbage sz) seq sz (0, 0))"

text \<open>
  What the run-length symbols of an 8 by 8 block keep of it: its 63 AC coefficients in zig-zag
  order, without the zeros at the end.
\<close>

definition block_ac :: "block \<Rightarrow> int list" where
  "block_ac b = without_trailing_zeros (map (\<lambda>k. cell b (zig_zag_pos 8 k)) [1..<64])"

text \<open>A block with the DC coefficient \<open>d\<close> and no other coefficient.\<close>

definition dc_block :: "int \<Rightarrow> block" where
  "dc_block d = (d # replicate 7 0) # replicate 7 (replicate 8 0)"

section \<open>Encoder\<close>

text \<open>Running a fallible function over a list; the first error aborts the traversal.\<close>

fun traverse :: "('a \<Rightarrow> error + 'b) \<Rightarrow> 'a list \<Rightarrow> error + 'b list" where
  "traverse f [] = Inr []"
| "traverse f (a # as) =
     (case f a of
        Inl e \<Rightarrow> Inl e
      | Inr b \<Rightarrow> (case traverse f as of Inl e \<Rightarrow> Inl e | Inr bs \<Rightarrow> Inr (b # bs)))"

text \<open>
  \<open>Encoder.__init__\<close>: the luminance layer is \<open>data['y']\<close>, the chrominance layer is
  \<open>np.vstack((data['cb'], data['cr']))\<close>, the blocks of cb followed by those of cr.
\<close>

definition layer_blocks :: "ycbcr \<Rightarrow> layer_type \<Rightarrow> block list" where
  "layer_blocks data layer_type =
     (case layer_type of LUMINANCE \<Rightarrow> Y data | CHROMINANCE \<Rightarrow> Cb data @ Cr data)"

text \<open>\<open>l[:, 0, 0]\<close>: the element \<open>[0][0]\<close> of every block.\<close>

definition dc_coefficient :: "block \<Rightarrow> error + int" where
  "dc_coefficient b =
     (case b of [] \<Rightarrow> Inl IndexError
      | row # _ \<Rightarrow> (case row of [] \<Rightarrow> Inl IndexError | v # _ \<Rightarrow> Inr v))"

text \<open>
  \<open>Encoder._get_diff_dc\<close> for one layer: \<open>encode_differential(l[:, 0, 0])\<close>. The argument is
  a numpy array, so the differences are computed in the dtype \<open>dt\<close> of the layer's array.
\<close>

definition get_diff_dc :: "dtype \<Rightarrow> block list \<Rightarrow> error + int list" where
  "get_diff_dc dt layer =
     (case traverse dc_coefficient layer of
        Inl e \<Rightarrow> Inl e
      | Inr dcs \<Rightarrow> Inr (encode_differential dt dcs))"

text \<open>
  \<open>Encoder._get_run_length_ac\<close> for one layer:
  \<open>seq.extend(encode_run_length(list(iter_zig_zag(block))[1:]))\<close> for each block.
\<close>

definition block_run_length :: "block \<Rightarrow> error + ac_pair list" where
  "block_run_length b =
     (case iter_zig_zag b of
        Inl e \<Rightarrow> Inl e
      | Inr items \<Rightarrow> encode_run_length (tl items))"

definition get_run_length_ac :: "block list \<Rightarrow> error + ac_pair list" where
  "get_run_length_ac layer =
     (case traverse block_run_length layer of
        Inl e \<Rightarrow> Inl e
      | Inr seqs \<Rightarrow> Inr (concat seqs))"

text \<open>
  \<open>Encoder.encode\<close>. The property \<open>diff_dc\<close> computes both layers at its first use, and so
  does \<open>run_length_ac\<close>; the order of the steps below is the order in which the source
  evaluates them, which decides the error that is raised when several steps fail. The first two
  arguments are the integer dtype of the array \<open>data['y']\<close> and the one of the stacked
  chrominance array, to which \<open>np.vstack\<close> brings cb and cr.
\<close>

definition encode :: "dtype \<Rightarrow> dtype \<Rightarrow> ycbcr \<Rightarrow> error + bitstreams" where
  "encode dtype_y dtype_c data =
     (case get_diff_dc dtype_y (layer_blocks data LUMINANCE) of
        Inl e \<Rightarrow> Inl e | Inr diff_dc_l \<Rightarrow>
      case get_diff_dc dtype_c (layer_blocks data CHROMINANCE) of
        Inl e \<Rightarrow> Inl e | Inr diff_dc_c \<Rightarrow>
      case encode_all (map DCValue diff_dc_l) LUMINANCE of Inl e \<Rightarrow> Inl e | Inr dc_l \<Rightarrow>
      case get_run_length_ac (layer_blocks data LUMINANCE) of Inl e \<Rightarrow> Inl e | Inr rl_ac_l \<Rightarrow>
      case get_run_length_ac (layer_blocks data CHROMINANCE) of Inl e \<Rightarrow> Inl e | Inr rl_ac_c \<Rightarrow>
      case encode_all (map ACValue rl_ac_l) LUMINANCE of Inl e \<Rightarrow> Inl e | Inr ac_l \<Rightarrow>
      case encode_all (map DCValue diff_dc_c) CHROMINANCE of Inl e \<Rightarrow> Inl e | Inr dc_c \<Rightarrow>
      case encode_all (map ACValue rl_ac_c) CHROMINANCE of Inl e \<Rightarrow> Inl e | Inr ac_c \<Rightarrow>
        Inr \<lparr>dc_luminance = dc_l, dc_chrominance = dc_c,
             ac_luminance = ac_l, ac_chrominance = ac_c\<rparr>)"

section \<open>Decoder\<close>

text \<open>
  In DC mode \<open>decode_huffman\<close> yields integers only and in AC mode tuples only, so these
  selections drop nothing.
\<close>

definition dc_values :: "huffman_value list \<Rightarrow> int list" where
  "dc_values vs = concat (map (\<lambda>v. case v of DCValue d \<Rightarrow> [d] | ACValue _ \<Rightarrow> []) vs)"

definition ac_values :: "huffman_value list \<Rightarrow> ac_pair list" where
  "ac_values vs = concat (map (\<lambda>v. case v of DCValue _ \<Rightarrow> [] | ACValue p \<Rightarrow> [p]) vs)"

text \<open>\<open>Decoder._get_dc\<close> for one layer.\<close>

definition get_dc :: "bits \<Rightarrow> layer_type \<Rightarrow> error + int list" where
  "get_dc bit_seq layer_type =
     (case decode_huffman bit_seq DC layer_type of
        Inl e \<Rightarrow> Inl e
      | Inr vs \<Rightarrow> Inr (decode_differential (dc_values vs)))"

text \<open>
  The generator \<open>isplit\<close> local to \<open>Decoder._get_ac\<close>: it yields \<open>ret\<close> only when the item is
  the splitter.
\<close>

fun isplit_from :: "'a list \<Rightarrow> 'a \<Rightarrow> 'a list \<Rightarrow> 'a list list" where
  "isplit_from [] splitter ret = []"
| "isplit_from (item # iterable) splitter ret =
     (if item = splitter then (ret @ [item]) # isplit_from iterable splitter []
      else isplit_from iterable splitter (ret @ [item]))"

definition isplit :: "'a list \<Rightarrow> 'a \<Rightarrow> 'a list list" where
  "isplit iterable splitter = isplit_from iterable splitter []"

text \<open>\<open>Decoder._get_ac\<close> for one layer.\<close>

definition get_ac :: "bits \<Rightarrow> layer_type \<Rightarrow> error + int list list" where
  "get_ac bit_seq layer_type =
     (case decode_huffman bit_seq AC layer_type of
        Inl e \<Rightarrow> Inl e
      | Inr vs \<Rightarrow> Inr (map decode_run_length (isplit (ac_values vs) EOB)))"

text \<open>
  \<open>np.array(tuple(inverse_iter_zig_zag((dc, ) + ac, size=8) for dc, ac in zip(dcs, acs)))\<close>.
\<close>

definition shaped :: "(nat \<Rightarrow> nat \<Rightarrow> int) \<Rightarrow> int list \<Rightarrow> int list list \<Rightarrow> error + block list" where
  "shaped garbage dcs acs =
     traverse (\<lambda>(dc, ac). inverse_iter_zig_zag garbage (dc # ac) (Some 8) 0) (zip dcs acs)"

text \<open>
  \<open>np.split(ary, 2)\<close>: two halves, and \<open>ValueError\<close> when the array does not divide
  evenly.
\<close>

definition np_split2 :: "'a list \<Rightarrow> error + 'a list \<times> 'a list" where
  "np_split2 ary =
     (if length ary mod 2 \<noteq> 0 then Inl ValueError
      else Inr (take (length ary div 2) ary, drop (length ary div 2) ary))"

text \<open>
  \<open>Decoder.decode\<close>. The properties \<open>dc\<close> and \<open>ac\<close> decode both layers (luminance first)
  at their first use; both are used before the first check can raise, \<open>ac\<close> at the latest by
  the message of the \<open>ValueError\<close>.
\<close>

definition decode :: "(nat \<Rightarrow> nat \<Rightarrow> int) \<Rightarrow> bitstreams \<Rightarrow> error + ycbcr" where
  "decode garbage data =
     (case get_dc (dc_luminance data) LUMINANCE of Inl e \<Rightarrow> Inl e | Inr dc_l \<Rightarrow>
      case get_dc (dc_chrominance data) CHROMINANCE of Inl e \<Rightarrow> Inl e | Inr dc_c \<Rightarrow>
      case get_ac (ac_luminance data) LUMINANCE of Inl e \<Rightarrow> Inl e | Inr ac_l \<Rightarrow>
      case get_ac (ac_chrominance data) CHROMINANCE of Inl e \<Rightarrow> Inl e | Inr ac_c \<Rightarrow>
        if length dc_c mod 2 \<noteq> 0 \<or> length ac_c mod 2 \<noteq> 0 then Inl ValueError
        else if length dc_l \<noteq> length ac_l then Inl ValueError
        else case shaped garbage dc_l ac_l of Inl e \<Rightarrow> Inl e | Inr shaped_l \<Rightarrow>
          if length dc_c \<noteq> length ac_c then Inl ValueError
          else case shaped garbage dc_c ac_c of Inl e \<Rightarrow> Inl e | Inr shaped_c \<Rightarrow>
            (case np_split2 shaped_c of
               Inl e \<Rightarrow> Inl e
             | Inr (cb, cr) \<Rightarrow> Inr \<lparr>Y = shaped_l, Cb = cb, Cr = cr\<rparr>))"

declare upto_rec_numeral [simp del]


section \<open>The category of a value\<close>

lemma index_row_notin: "target \<notin> set row \<Longrightarrow> index_row row target j = None"
  by (induction row arbitrary: j) auto

lemma index_row_append_notin:
  "target \<notin> set xs \<Longrightarrow> index_row (xs @ ys) target j = index_row ys target (j + length xs)"
  by (induction xs arbitrary: j) auto

lemma index_row_upto:
  "a \<le> v \<Longrightarrow> v \<le> b \<Longrightarrow> index_row ([a..b] @ ys) v j = Some (j + nat (v - a))"
proof (induction a b arbitrary: j rule: upto.induct)
  case (1 i k)
  show ?case
  proof (cases "v = i")
    case True
    then show ?thesis using 1 by (simp add: upto_rec1[of i k])
  next
    case False
    then have "i + 1 \<le> v" using 1 by simp
    then show ?thesis using 1 False by (simp add: upto_rec1[of i k] nat_diff_distrib)
  qed
qed


lemma index_row_ranges:
  "index_row ([a..b] @ [c..d]) v 0 =
     (if a \<le> v \<and> v \<le> b then Some (nat (v - a))
      else if c \<le> v \<and> v \<le> d then Some (nat (b - a + 1) + nat (v - c))
      else None)"
  using index_row_upto[of a v b "[c..d]" 0] index_row_upto[of c v d "[]" "length [a..b]"]
  by (auto simp: index_row_append_notin index_row_notin)


lemma category_1:
  "1 \<le> \<bar>v\<bar> \<Longrightarrow> \<bar>v\<bar> < 2 \<Longrightarrow>
   index_2d HUFFMAN_CATEGORIES v = Inr (1, nat (if v < 0 then v + 1 else v))"
  by (cases "v < 0") (simp_all add: index_2d_def HUFFMAN_CATEGORIES_def index_row_ranges)

lemma category_2:
  "2 \<le> \<bar>v\<bar> \<Longrightarrow> \<bar>v\<bar> < 4 \<Longrightarrow>
   index_2d HUFFMAN_CATEGORIES v = Inr (2, nat (if v < 0 then v + 3 else v))"
  by (cases "v < 0") (auto simp add: index_2d_def HUFFMAN_CATEGORIES_def)

lemma category_3:
  "4 \<le> \<bar>v\<bar> \<Longrightarrow> \<bar>v\<bar> < 8 \<Longrightarrow>
   index_2d HUFFMAN_CATEGORIES v = Inr (3, nat (if v < 0 then v + 7 else v))"
  by (cases "v < 0") (simp_all add: index_2d_def HUFFMAN_CATEGORIES_def index_row_ranges)

lemma category_4:
  "8 \<le> \<bar>v\<bar> \<Longrightarrow> \<bar>v\<bar> < 16 \<Longrightarrow>
   index_2d HUFFMAN_CATEGORIES v = Inr (4, nat (if v < 0 then v + 15 else v))"
  by (cases "v < 0") (simp_all add: index_2d_def HUFFMAN_CATEGORIES_def index_row_ranges)

lemma category_5:
  "16 \<le> \<bar>v\<bar> \<Longrightarrow> \<bar>v\<bar> < 32 \<Longrightarrow>
   index_2d HUFFMAN_CATEGORIES v = Inr (5, nat (if v < 0 then v + 31 else v))"
  by (cases "v < 0") (simp_all add: index_2d_def HUFFMAN_CATEGORIES_def index_row_ranges)

lemma category_6:
  "32 \<le> \<bar>v\<bar> \<Longrightarrow> \<bar>v\<bar> < 64 \<Longrightarrow>
   index_2d HUFFMAN_CATEGORIES v = Inr (6, nat (if v < 0 then v + 63 else v))"
  by (cases "v < 0") (simp_all add: index_2d_def HUFFMAN_CATEGORIES_def index_row_ranges)

lemma category_7:
  "64 \<le> \<bar>v\<bar> \<Longrightarrow> \<bar>v\<bar> < 128 \<Longrightarrow>
   index_2d HUFFMAN_CATEGORIES v = Inr (7, nat (if v < 0 then v + 127 else v))"
  by (cases "v < 0") (simp_all add: index_2d_def HUFFMAN_CATEGORIES_def index_row_ranges)

lemma category_8:
  "128 \<le> \<bar>v\<bar> \<Longrightarrow> \<bar>v\<bar> < 256 \<Longrightarrow>
   index_2d HUFFMAN_CATEGORIES v = Inr (8, nat (if v < 0 then v + 255 else v))"
  by (cases "v < 0") (simp_all add: index_2d_def HUFFMAN_CATEGORIES_def index_row_ranges)

lemma category_9:
  "256 \<le> \<bar>v\<bar> \<Longrightarrow> \<bar>v\<bar> < 512 \<Longrightarrow>
   index_2d HUFFMAN_CATEGORIES v = Inr (9, nat (if v < 0 then v + 511 else v))"
  by (cases "v < 0") (simp_all add: index_2d_def HUFFMAN_CATEGORIES_def index_row_ranges)

lemma category_10:
  "512 \<le> \<bar>v\<bar> \<Longrightarrow> \<bar>v\<bar> < 1024 \<Longrightarrow>
   index_2d HUFFMAN_CATEGORIES v = Inr (10, nat (if v < 0 then v + 1023 else v))"
  by (cases "v < 0") (simp_all add: index_2d_def HUFFMAN_CATEGORIES_def index_row_ranges)

lemma category_11:
  "1024 \<le> \<bar>v\<bar> \<Longrightarrow> \<bar>v\<bar> < 2048 \<Longrightarrow>
   index_2d HUFFMAN_CATEGORIES v = Inr (11, nat (if v < 0 then v + 2047 else v))"
  by (cases "v < 0") (simp_all add: index_2d_def HUFFMAN_CATEGORIES_def index_row_ranges)

lemma category_12:
  "2048 \<le> \<bar>v\<bar> \<Longrightarrow> \<bar>v\<bar> < 4096 \<Longrightarrow>
   index_2d HUFFMAN_CATEGORIES v = Inr (12, nat (if v < 0 then v + 4095 else v))"
  by (cases "v < 0") (simp_all add: index_2d_def HUFFMAN_CATEGORIES_def index_row_ranges)

lemma category_13:
  "4096 \<le> \<bar>v\<bar> \<Longrightarrow> \<bar>v\<bar> < 8192 \<Longrightarrow>
   index_2d HUFFMAN_CATEGORIES v = Inr (13, nat (if v < 0 then v + 8191 else v))"
  by (cases "v < 0") (simp_all add: index_2d_def HUFFMAN_CATEGORIES_def index_row_ranges)

lemma category_14:
  "8192 \<le> \<bar>v\<bar> \<Longrightarrow> \<bar>v\<bar> < 16384 \<Longrightarrow>
   index_2d HUFFMAN_CATEGORIES v = Inr (14, nat (if v < 0 then v + 16383 else v))"
  by (cases "v < 0") (simp_all add: index_2d_def HUFFMAN_CATEGORIES_def index_row_ranges)

lemma category_15:
  "16384 \<le> \<bar>v\<bar> \<Longrightarrow> \<bar>v\<bar> < 32768 \<Longrightarrow>
   index_2d HUFFMAN_CATEGORIES v = Inr (15, nat (if v < 0 then v + 32767 else v))"
  by (cases "v < 0") (simp_all add: index_2d_def HUFFMAN_CATEGORIES_def index_row_ranges)

lemma category_lookup:
  assumes "1 \<le> s" "s \<le> 15" "2 ^ (s - 1) \<le> \<bar>v\<bar>" "\<bar>v\<bar> < 2 ^ s"
  shows "index_2d HUFFMAN_CATEGORIES v = Inr (s, nat (if v < 0 then v + 2 ^ s - 1 else v))"
proof -
  from assms(1,2) have "s = 1 \<or> s = 2 \<or> s = 3 \<or> s = 4 \<or> s = 5 \<or> s = 6 \<or> s = 7 \<or> s = 8
    \<or> s = 9 \<or> s = 10 \<or> s = 11 \<or> s = 12 \<or> s = 13 \<or> s = 14 \<or> s = 15"
    by arith
  then show ?thesis
    using assms(3,4)
    apply (elim disjE)
    subgoal using category_1[of v] by (simp add: ac_simps)
    subgoal using category_2[of v] by (simp add: ac_simps)
    subgoal using category_3[of v] by (simp add: ac_simps)
    subgoal using category_4[of v] by (simp add: ac_simps)
    subgoal using category_5[of v] by (simp add: ac_simps)
    subgoal using category_6[of v] by (simp add: ac_simps)
    subgoal using category_7[of v] by (simp add: ac_simps)
    subgoal using category_8[of v] by (simp add: ac_simps)
    subgoal using category_9[of v] by (simp add: ac_simps)
    subgoal using category_10[of v] by (simp add: ac_simps)
    subgoal using category_11[of v] by (simp add: ac_simps)
    subgoal using category_12[of v] by (simp add: ac_simps)
    subgoal using category_13[of v] by (simp add: ac_simps)
    subgoal using category_14[of v] by (simp add: ac_simps)
    subgoal using category_15[of v] by (simp add: ac_simps)
    done
qed

lemma category_rows:
  assumes "1 \<le> s" "s \<le> 15"
  shows "HUFFMAN_CATEGORIES ! s = canonical_order s"
proof -
  from assms(1,2) have "s = 1 \<or> s = 2 \<or> s = 3 \<or> s = 4 \<or> s = 5 \<or> s = 6 \<or> s = 7 \<or> s = 8
    \<or> s = 9 \<or> s = 10 \<or> s = 11 \<or> s = 12 \<or> s = 13 \<or> s = 14 \<or> s = 15"
    by arith
  moreover have "HUFFMAN_CATEGORIES ! 1 = canonical_order 1"
    by (simp add: HUFFMAN_CATEGORIES_def canonical_order_def)
  moreover have "HUFFMAN_CATEGORIES ! 2 = canonical_order 2"
    by (simp add: HUFFMAN_CATEGORIES_def canonical_order_def upto.simps[of "-3"] upto.simps[of "2"])
  ultimately show ?thesis
    by (elim disjE; simp add: HUFFMAN_CATEGORIES_def canonical_order_def)
qed

lemma category_size:
  assumes "v \<noteq> 0" "\<bar>v\<bar> < 2 ^ n"
  shows "1 \<le> floorlog 2 (nat \<bar>v\<bar>) \<and> floorlog 2 (nat \<bar>v\<bar>) \<le> n
    \<and> 2 ^ (floorlog 2 (nat \<bar>v\<bar>) - 1) \<le> \<bar>v\<bar> \<and> \<bar>v\<bar> < 2 ^ floorlog 2 (nat \<bar>v\<bar>)"
proof -
  let ?x = "nat \<bar>v\<bar>"
  have pos: "0 < ?x" using assms by simp
  have b: "2 ^ (floorlog 2 ?x - 1) \<le> ?x \<and> ?x < 2 ^ floorlog 2 ?x"
    using floorlog_bounds[of ?x 2] pos by simp
  have "?x < 2 ^ n" using assms(2) by (simp add: nat_less_iff)
  then have 1: "floorlog 2 ?x \<le> n" by (intro floorlog_leI) simp_all
  have 2: "1 \<le> floorlog 2 ?x" using pos by (simp add: floorlog_def)
  have "int (2 ^ (floorlog 2 ?x - 1)) \<le> int ?x" using b by (simp only: of_nat_le_iff)
  then have 3: "2 ^ (floorlog 2 ?x - 1) \<le> \<bar>v\<bar>" by simp
  have "int ?x < int (2 ^ floorlog 2 ?x)" using b by (simp only: of_nat_less_iff)
  then have 4: "\<bar>v\<bar> < 2 ^ floorlog 2 ?x" by simp
  show ?thesis using 1 2 3 4 by blast
qed

lemma canonical_order_nth:
  assumes "1 \<le> s" "2 ^ (s - 1) \<le> \<bar>v\<bar>" "\<bar>v\<bar> < 2 ^ s"
  shows "nat (if v < 0 then v + 2 ^ s - 1 else v) < length (canonical_order s)
    \<and> canonical_order s ! nat (if v < 0 then v + 2 ^ s - 1 else v) = v"
proof -
  have p: "(2::int) ^ s = 2 * 2 ^ (s - 1)"
    using assms(1) by (cases s) auto
  show ?thesis
  proof (cases "v < 0")
    case True
    then show ?thesis using assms p
      by (simp add: canonical_order_def nth_append)
  next
    case False
    then show ?thesis using assms p
      by (simp add: canonical_order_def nth_append nat_diff_distrib nat_add_distrib)
  qed
qed

text \<open>
  Claim C6. The category lookup of 0 is \<open>(0, 0)\<close>. For every nonzero \<open>v\<close> with
  \<open>\<bar>v\<bar> \<le> 32767\<close> the search of \<open>HUFFMAN_CATEGORIES\<close> returns \<open>(size, index)\<close> with
  \<open>size = \<lfloor>log\<^sub>2 \<bar>v\<bar>\<rfloor> + 1\<close>, and \<open>index\<close> is the position of \<open>v\<close> in the canonical order of
  that size, which is also its position in the row \<open>HUFFMAN_CATEGORIES[size]\<close>.
\<close>

theorem category_classification:
  "index_2d HUFFMAN_CATEGORIES 0 = Inr (0, 0) \<and>
   (\<forall>v. v \<noteq> 0 \<and> \<bar>v\<bar> \<le> 32767 \<longrightarrow>
      (\<exists>size index.
         index_2d HUFFMAN_CATEGORIES v = Inr (size, index) \<and>
         size = nat \<lfloor>log 2 (real_of_int \<bar>v\<bar>)\<rfloor> + 1 \<and>
         index < length (canonical_order size) \<and>
         canonical_order size ! index = v \<and>
         HUFFMAN_CATEGORIES ! size ! index = v))"
proof (intro conjI allI impI)
  show "index_2d HUFFMAN_CATEGORIES 0 = Inr (0, 0)"
    by (simp add: index_2d_def HUFFMAN_CATEGORIES_def)
next
  fix v :: int
  assume a: "v \<noteq> 0 \<and> \<bar>v\<bar> \<le> 32767"
  define s where "s = floorlog 2 (nat \<bar>v\<bar>)"
  define i where "i = nat (if v < 0 then v + 2 ^ s - 1 else v)"
  have "\<bar>v\<bar> < 2 ^ 15" using a by simp
  then have sz: "1 \<le> s" "s \<le> 15" "2 ^ (s - 1) \<le> \<bar>v\<bar>" "\<bar>v\<bar> < 2 ^ s"
    using category_size[of v 15] a unfolding s_def by blast+
  have 1: "index_2d HUFFMAN_CATEGORIES v = Inr (s, i)"
    unfolding i_def by (rule category_lookup[OF sz])
  have 2: "s = nat \<lfloor>log 2 (real_of_int \<bar>v\<bar>)\<rfloor> + 1"
    using a by (simp add: s_def floorlog_def)
  have 3: "i < length (canonical_order s) \<and> canonical_order s ! i = v"
    unfolding i_def by (rule canonical_order_nth[OF sz(1,3,4)])
  have 4: "HUFFMAN_CATEGORIES ! s ! i = v"
    using 3 category_rows[OF sz(1,2)] by simp
  show "\<exists>size index.
         index_2d HUFFMAN_CATEGORIES v = Inr (size, index) \<and>
         size = nat \<lfloor>log 2 (real_of_int \<bar>v\<bar>)\<rfloor> + 1 \<and>
         index < length (canonical_order size) \<and>
         canonical_order size ! index = v \<and>
         HUFFMAN_CATEGORIES ! size ! index = v"
    using 1 2 3 4 by blast
qed


theorem category_classification_witness:
  "\<exists>size index.
     index_2d HUFFMAN_CATEGORIES (-5) = Inr (size, index) \<and>
     size = nat \<lfloor>log 2 (real_of_int \<bar>-5\<bar>)\<rfloor> + 1 \<and>
     index < length (canonical_order size) \<and>
     canonical_order size ! index = -5 \<and>
     HUFFMAN_CATEGORIES ! size ! index = -5"
proof -
  have "(-5::int) \<noteq> 0 \<and> \<bar>-5::int\<bar> \<le> 32767" by simp
  then show ?thesis
    using category_classification[THEN conjunct2, THEN spec, of "-5"] by (rule rev_mp)
qed

section \<open>The codeword tables are prefix codes\<close>

lemma trie_insert_paths:
  "trie_insert w t = Some t' \<Longrightarrow>
     paths t' = insert (path w) (paths t) \<and>
     (\<forall>p \<in> paths t. \<not> prefix p (path w) \<and> \<not> prefix (path w) p)"
proof (induction w t arbitrary: t' rule: trie_insert.induct)
  case (5 c cs)
  then show ?case by (auto simp: path_def split: if_splits)
next
  case (6 c cs l r)
  then show ?case by (auto simp: path_def split: if_splits)
qed (auto simp: path_def)

lemma trie_build_paths:
  "trie_build ws t = Some t' \<Longrightarrow>
     distinct (map path ws) \<and> paths t \<inter> set (map path ws) = {} \<and>
     (\<forall>p \<in> paths t \<union> set (map path ws). \<forall>q \<in> set (map path ws). p \<noteq> q \<longrightarrow> \<not> prefix p q \<and> \<not> prefix q p)"
proof (induction ws arbitrary: t)
  case Nil
  then show ?case by simp
next
  case (Cons w ws)
  then obtain t1 where 1: "trie_insert w t = Some t1" and 2: "trie_build ws t1 = Some t'"
    by (auto split: option.splits)
  note i = trie_insert_paths[OF 1]
  note b = Cons.IH[OF 2]
  have "path w \<notin> paths t" using i by auto
  show ?case using i b by (auto simp: )
qed

lemma is_prefix_code_sound:
  assumes "is_prefix_code ws"
  shows "distinct ws \<and> prefix_free ws"
proof -
  obtain t where t: "trie_build ws Empty = Some t"
    using assms by (auto simp: is_prefix_code_def)
  note b = trie_build_paths[OF t]
  have d: "distinct ws" using b by (auto simp: distinct_map)
  have "\<not> strict_prefix c d" if "c \<in> set ws" "d \<in> set ws" for c d
  proof
    assume sp: "strict_prefix c d"
    then have "prefix (path c) (path d)" by (auto simp: path_def strict_prefix_def prefix_def)
    moreover have "path c \<noteq> path d"
      using sp by (metis length_map path_def prefix_length_less less_irrefl)
    ultimately show False using b that by auto
  qed
  then show ?thesis using d by (auto simp: prefix_free_def)
qed

lemma prefix_code_AC_LUMINANCE: "is_prefix_code (map snd AC_LUMINANCE_CODEWORD)"
  by code_simp

lemma prefix_code_AC_CHROMINANCE: "is_prefix_code (map snd AC_CHROMINANCE_CODEWORD)"
  by code_simp

lemma prefix_code_DC_LUMINANCE: "is_prefix_code (map snd DC_LUMINANCE_CODEWORD)"
  by code_simp

lemma prefix_code_DC_CHROMINANCE: "is_prefix_code (map snd DC_CHROMINANCE_CODEWORD)"
  by code_simp

lemma keys_AC_LUMINANCE:
  "map fst AC_LUMINANCE_CODEWORD = (0, 0) # (15, 0) # List.product [0..<16] [1..<11]"
  by code_simp

lemma keys_AC_CHROMINANCE:
  "map fst AC_CHROMINANCE_CODEWORD = (0, 0) # (15, 0) # List.product [0..<16] [1..<11]"
  by code_simp

lemma keys_DC_LUMINANCE: "map fst DC_LUMINANCE_CODEWORD = [0..<12]"
  by code_simp

lemma keys_DC_CHROMINANCE: "map fst DC_CHROMINANCE_CODEWORD = [0..<12]"
  by code_simp

lemma lengths_AC_LUMINANCE:
  "list_all (\<lambda>c. 0 < length c \<and> length c \<le> 16) (map snd AC_LUMINANCE_CODEWORD)"
  by code_simp

lemma lengths_AC_CHROMINANCE:
  "list_all (\<lambda>c. 0 < length c \<and> length c \<le> 16) (map snd AC_CHROMINANCE_CODEWORD)"
  by code_simp

lemma lengths_DC_LUMINANCE:
  "list_all (\<lambda>c. 0 < length c \<and> length c \<le> 16) (map snd DC_LUMINANCE_CODEWORD)"
  by code_simp

lemma lengths_DC_CHROMINANCE:
  "list_all (\<lambda>c. 0 < length c \<and> length c \<le> 16) (map snd DC_CHROMINANCE_CODEWORD)"
  by code_simp

lemma keys_AC: "map fst (HUFFMAN_CATEGORY_CODEWORD_AC layer_type) =
    (0, 0) # (15, 0) # List.product [0..<16] [1..<11]"
  by (cases layer_type)
    (simp_all add: HUFFMAN_CATEGORY_CODEWORD_AC_def keys_AC_LUMINANCE keys_AC_CHROMINANCE)

lemma keys_DC: "map fst (HUFFMAN_CATEGORY_CODEWORD_DC layer_type) = [0..<12]"
  by (cases layer_type)
    (simp_all add: HUFFMAN_CATEGORY_CODEWORD_DC_def keys_DC_LUMINANCE keys_DC_CHROMINANCE)

lemma distinct_keys_AC: "distinct (map fst (HUFFMAN_CATEGORY_CODEWORD_AC layer_type))"
proof -
  have "distinct (List.product [0..<16] [1..<11::nat])"
    by (rule distinct_product) simp_all
  then show ?thesis unfolding keys_AC by auto
qed

lemma good_table_AC: "good_table (HUFFMAN_CATEGORY_CODEWORD_AC layer_type)"
  using distinct_keys_AC[of layer_type]
    is_prefix_code_sound[OF prefix_code_AC_LUMINANCE]
    is_prefix_code_sound[OF prefix_code_AC_CHROMINANCE]
    lengths_AC_LUMINANCE lengths_AC_CHROMINANCE
  by (cases layer_type) (simp_all add: good_table_def HUFFMAN_CATEGORY_CODEWORD_AC_def)

lemma good_table_DC: "good_table (HUFFMAN_CATEGORY_CODEWORD_DC layer_type)"
  using keys_DC[of layer_type]
    is_prefix_code_sound[OF prefix_code_DC_LUMINANCE]
    is_prefix_code_sound[OF prefix_code_DC_CHROMINANCE]
    lengths_DC_LUMINANCE lengths_DC_CHROMINANCE
  by (cases layer_type) (simp_all add: good_table_def HUFFMAN_CATEGORY_CODEWORD_DC_def)

lemma lookup_in_table: "lookup t k = Inr c \<Longrightarrow> (k, c) \<in> set t"
  by (auto simp: lookup_def split: option.splits dest: map_of_SomeD)

lemma lookup_key: "k \<in> set (map fst t) \<Longrightarrow> \<exists>c. lookup t k = Inr c"
  by (cases "map_of t k") (auto simp: lookup_def map_of_eq_None_iff)

lemma lookup_no_key: "k \<notin> set (map fst t) \<Longrightarrow> lookup t k = Inl KeyError"
  by (simp add: lookup_def map_of_eq_None_iff[THEN iffD2])

lemma inv_of_in_table: "inv_of t c = Some k \<Longrightarrow> (k, c) \<in> set t"
  by (auto simp: inv_of_def dest!: map_of_SomeD)

lemma inv_of_codeword:
  assumes "distinct (map snd t)" "(k, c) \<in> set t"
  shows "inv_of t c = Some k"
proof -
  have "map fst (map (\<lambda>(key, codeword). (codeword, key)) t) = map snd t"
    by (simp add: case_prod_unfold o_def)
  with assms(1) have "distinct (map fst (map (\<lambda>(key, codeword). (codeword, key)) t))"
    by (simp only:)
  moreover have "(c, k) \<in> set (map (\<lambda>(key, codeword). (codeword, key)) t)"
    using assms(2) by force
  ultimately show ?thesis unfolding inv_of_def by (rule map_of_is_SomeI)
qed

lemma lookup_inj:
  assumes "distinct (map snd t)"
  shows "inj_on (lookup t) (set (map fst t))"
proof (rule inj_onI)
  fix a b
  assume a: "a \<in> set (map fst t)" and b: "b \<in> set (map fst t)" and eq: "lookup t a = lookup t b"
  from lookup_key[OF a] obtain c where c: "lookup t a = Inr c" by blast
  then have "(a, c) \<in> set t" "(b, c) \<in> set t"
    using eq by (auto dest: lookup_in_table)
  then show "a = b"
    using inv_of_codeword[OF assms, of a c] inv_of_codeword[OF assms, of b c] by simp
qed

text \<open>
  Claim C4. In each of the four codeword tables (DC and AC, luminance and chrominance) no key
  and no codeword occurs twice, so the table is an injective mapping from symbols to bit
  strings, and no codeword of a table is a proper prefix of another codeword of that table.
\<close>

theorem huffman_tables_prefix_free:
  "distinct (map fst (HUFFMAN_CATEGORY_CODEWORD_DC layer_type)) \<and>
   distinct (map snd (HUFFMAN_CATEGORY_CODEWORD_DC layer_type)) \<and>
   inj_on (lookup (HUFFMAN_CATEGORY_CODEWORD_DC layer_type))
     (set (map fst (HUFFMAN_CATEGORY_CODEWORD_DC layer_type))) \<and>
   prefix_free (map snd (HUFFMAN_CATEGORY_CODEWORD_DC layer_type)) \<and>
   distinct (map fst (HUFFMAN_CATEGORY_CODEWORD_AC layer_type)) \<and>
   distinct (map snd (HUFFMAN_CATEGORY_CODEWORD_AC layer_type)) \<and>
   inj_on (lookup (HUFFMAN_CATEGORY_CODEWORD_AC layer_type))
     (set (map fst (HUFFMAN_CATEGORY_CODEWORD_AC layer_type))) \<and>
   prefix_free (map snd (HUFFMAN_CATEGORY_CODEWORD_AC layer_type))"
  using good_table_DC[of layer_type] good_table_AC[of layer_type]
    lookup_inj[of "HUFFMAN_CATEGORY_CODEWORD_DC layer_type"]
    lookup_inj[of "HUFFMAN_CATEGORY_CODEWORD_AC layer_type"]
  by (simp add: good_table_def)

theorem huffman_tables_prefix_free_witness:
  "lookup (HUFFMAN_CATEGORY_CODEWORD_AC CHROMINANCE) (14, 1) = Inr ''11111111100000'' \<and>
   lookup (HUFFMAN_CATEGORY_CODEWORD_AC CHROMINANCE) (15, 1) = Inr ''111111111000011'' \<and>
   \<not> strict_prefix ''11111111100000'' ''111111111000011''"
proof -
  have a: "lookup (HUFFMAN_CATEGORY_CODEWORD_AC CHROMINANCE) (14, 1) = Inr ''11111111100000''"
    by code_simp
  have b: "lookup (HUFFMAN_CATEGORY_CODEWORD_AC CHROMINANCE) (15, 1) = Inr ''111111111000011''"
    by code_simp
  have "''11111111100000'' \<in> set (map snd (HUFFMAN_CATEGORY_CODEWORD_AC CHROMINANCE))"
       "''111111111000011'' \<in> set (map snd (HUFFMAN_CATEGORY_CODEWORD_AC CHROMINANCE))"
    using lookup_in_table[OF a] lookup_in_table[OF b] by force+
  then have "\<not> strict_prefix ''11111111100000'' ''111111111000011''"
    using huffman_tables_prefix_free[of CHROMINANCE] unfolding prefix_free_def by blast
  then show ?thesis using a b by simp
qed

section \<open>Coding one value\<close>

lemma canonical_order_length: "1 \<le> s \<Longrightarrow> length (canonical_order s) = 2 ^ s"
proof -
  assume "1 \<le> s"
  then have p: "(2::int) ^ s = 2 * 2 ^ (s - 1)" by (cases s) auto
  have "nat (2 * 2 ^ (s - 1)) = (2::nat) * 2 ^ (s - 1)"
    by (simp add: nat_mult_distrib nat_power_eq)
  then show ?thesis using p \<open>1 \<le> s\<close>
    by (cases s) (auto simp add: canonical_order_def nat_add_distrib nat_power_eq)
qed

lemma category_of_bounded:
  assumes "v \<noteq> 0" "\<bar>v\<bar> < 2 ^ n" "n \<le> 15"
  obtains s i where "index_2d HUFFMAN_CATEGORIES v = Inr (s, i)" "1 \<le> s" "s \<le> n"
    "i < 2 ^ s" "category_value s i = Inr v"
proof -
  define s where "s = floorlog 2 (nat \<bar>v\<bar>)"
  define i where "i = nat (if v < 0 then v + 2 ^ s - 1 else v)"
  have sz: "1 \<le> s" "s \<le> n" "2 ^ (s - 1) \<le> \<bar>v\<bar>" "\<bar>v\<bar> < 2 ^ s"
    using category_size[OF assms(1,2)] unfolding s_def by blast+
  have s15: "s \<le> 15" using sz(2) assms(3) by simp
  have 1: "index_2d HUFFMAN_CATEGORIES v = Inr (s, i)"
    unfolding i_def by (rule category_lookup[OF sz(1) s15 sz(3,4)])
  have 3: "i < length (canonical_order s) \<and> canonical_order s ! i = v"
    unfolding i_def by (rule canonical_order_nth[OF sz(1,3,4)])
  have 4: "HUFFMAN_CATEGORIES ! s = canonical_order s"
    by (rule category_rows[OF sz(1) s15])
  have 5: "length HUFFMAN_CATEGORIES = 16" by (simp add: HUFFMAN_CATEGORIES_def)
  have "category_value s i = Inr v"
    using 3 4 5 s15 by (simp add: category_value_def)
  moreover have "i < 2 ^ s" using 3 canonical_order_length[OF sz(1)] by simp
  ultimately show ?thesis using that 1 sz by blast
qed

lemma index_2d_zero: "index_2d HUFFMAN_CATEGORIES 0 = Inr (0, 0)"
  by (simp add: index_2d_def HUFFMAN_CATEGORIES_def)

subsection \<open>Binary digits\<close>

lemma bin_digits_bits: "list_all (\<lambda>c. c = CHR ''0'' \<or> c = CHR ''1'') (bin_digits n)"
  by (induction n rule: bin_digits.induct) (subst bin_digits.simps, auto)

lemma bin_digits_nonempty: "bin_digits n \<noteq> []"
  by (subst bin_digits.simps) auto

lemma bin_digits_value: "foldl bitval a (bin_digits n) = a * 2 ^ length (bin_digits n) + n"
proof (induction n arbitrary: a rule: bin_digits.induct)
  case (1 n)
  show ?case
  proof (cases "n < 2")
    case True
    then show ?thesis by (subst (1 2) bin_digits.simps) auto
  next
    case False
    have "foldl bitval a (bin_digits n) =
        2 * foldl bitval a (bin_digits (n div 2)) + (if n mod 2 = 1 then 1 else 0)"
      using False by (subst bin_digits.simps) auto
    also have "\<dots> = 2 * (a * 2 ^ length (bin_digits (n div 2)) + n div 2) + n mod 2"
    proof -
      have m: "(if n mod 2 = 1 then 1 else 0) = n mod 2" by presburger
      show ?thesis unfolding 1[OF False, of a] m ..
    qed
    also have "\<dots> = a * 2 ^ length (bin_digits n) + n"
      using False by (subst (2) bin_digits.simps) (auto simp: algebra_simps)
    finally show ?thesis .
  qed
qed

lemma bin_digits_length: "n < 2 ^ s \<Longrightarrow> 1 \<le> s \<Longrightarrow> length (bin_digits n) \<le> s"
proof (induction n arbitrary: s rule: bin_digits.induct)
  case (1 n)
  show ?case
  proof (cases "n < 2")
    case True
    then show ?thesis using 1(3) by (subst bin_digits.simps) auto
  next
    case False
    then have "2 \<le> s" using 1(2) by (cases s; cases "s - 1") auto
    then obtain s' where s': "s = Suc s'" "1 \<le> s'" by (cases s) auto
    have "n div 2 < 2 ^ s'" using 1(2) s' by auto
    then have "length (bin_digits (n div 2)) \<le> s'" using 1(1)[OF False _ s'(2)] by simp
    then show ?thesis using False s' by (subst bin_digits.simps) auto
  qed
qed

lemma format_bin_length: "i < 2 ^ s \<Longrightarrow> 1 \<le> s \<Longrightarrow> length (format_bin i s) = s"
  using bin_digits_length[of i s] by (simp add: format_bin_def)

lemma foldl_zeros: "foldl bitval 0 (replicate k CHR ''0'' @ xs) = foldl bitval 0 xs"
  by (induction k) auto

lemma int2_format_bin: "int2 (format_bin i s) = Inr i"
proof -
  have "list_all (\<lambda>c. c = CHR ''0'' \<or> c = CHR ''1'') (replicate k CHR ''0'')" for k
    by (induction k) simp_all
  then have "list_all (\<lambda>c. c = CHR ''0'' \<or> c = CHR ''1'') (format_bin i s)"
    using bin_digits_bits[of i] by (simp add: format_bin_def)
  moreover have "format_bin i s \<noteq> []"
    using bin_digits_nonempty by (simp add: format_bin_def)
  moreover have "foldl bitval 0 (format_bin i s) = i"
    by (simp add: format_bin_def foldl_zeros bin_digits_value del: foldl_append)
  ultimately show ?thesis by (simp add: int2_def)
qed


lemma find_codeword_prefix:
  assumes "distinct (map snd t)" "prefix_free (map snd t)" "(k, c) \<in> set t" "c \<noteq> []"
    "prefix c s"
  shows "find_codeword (inv_of t) s = Some (k, c)"
  using assms(5)
proof (induction "inv_of t" s rule: find_codeword.induct)
  case (1 s)
  have ne: "s \<noteq> []" using assms(4) 1(2) by auto
  show ?case
  proof (cases "inv_of t s")
    case None
    then have "s \<noteq> c" using inv_of_codeword[OF assms(1,3)] by auto
    then have "prefix c (butlast s)"
      using 1(2) ne by (metis append_butlast_last_id prefix_snoc)
    then have "find_codeword (inv_of t) (butlast s) = Some (k, c)"
      using 1(1)[OF ne None] by simp
    then show ?thesis using ne None by (subst find_codeword.simps) simp
  next
    case (Some k')
    then have in_t: "(k', s) \<in> set t" by (rule inv_of_in_table)
    have "c \<in> set (map snd t)" "s \<in> set (map snd t)"
      using assms(3) in_t by force+
    then have "\<not> strict_prefix c s" using assms(2) by (auto simp: prefix_free_def)
    then have "c = s" using 1(2) by (auto simp: strict_prefix_def)
    then have "k' = k" using inv_of_codeword[OF assms(1,3)] Some by simp
    then show ?thesis using ne Some \<open>c = s\<close> by (subst find_codeword.simps) simp
  qed
qed

lemma slice_prefix:
  assumes "drop idx bit_seq = c @ rest" "length c \<le> 16"
  shows "prefix c (take (if length bit_seq - idx > 16 then 16 else length bit_seq - idx)
     (drop idx bit_seq))"
proof -
  have "length bit_seq - idx = length c + length rest"
    using arg_cong[OF assms(1), of length] by simp
  then show ?thesis using assms by (auto simp: prefix_def)
qed

lemma good_table_codeword:
  assumes "good_table t" "(k, c) \<in> set t"
  shows "c \<noteq> []" "length c \<le> 16"
  using assms by (force simp: good_table_def list_all_iff)+

lemma find_codeword_stream:
  assumes "good_table t" "(k, c) \<in> set t" "drop idx bit_seq = c @ rest"
  shows "find_codeword (inv_of t)
     (take (if length bit_seq - idx > 16 then 16 else length bit_seq - idx) (drop idx bit_seq))
     = Some (k, c)"
proof -
  note gc = good_table_codeword[OF assms(1,2)]
  show ?thesis
    using assms(1) by (intro find_codeword_prefix[OF _ _ assms(2) gc(1)]
        slice_prefix[OF assms(3) gc(2)]) (simp_all add: good_table_def)
qed

lemma diff_value_stream:
  assumes "drop idx bit_seq = c @ format_bin i s @ rest" "i < 2 ^ s" "1 \<le> s"
  shows "diff_value bit_seq (idx + length c) s = Inr i"
proof -
  have len: "length bit_seq - idx = length c + s + length rest"
    using arg_cong[OF assms(1), of length] format_bin_length[OF assms(2,3)] by simp
  have "drop (idx + length c) bit_seq = drop (length c) (drop idx bit_seq)"
    by (simp add: add.commute)
  then have "take s (drop (idx + length c) bit_seq) = format_bin i s"
    using assms(1) format_bin_length[OF assms(2,3)] by simp
  moreover have "\<not> length bit_seq \<le> idx + length c \<and> \<not> length bit_seq < idx + length c + s"
    using len assms(3) by arith
  ultimately show ?thesis by (simp add: diff_value_def int2_format_bin)
qed

lemma encode_DC_cases:
  assumes "encode_huffman (DCValue v) layer_type = Inr code"
  obtains c where "v = 0" "(0, c) \<in> set (HUFFMAN_CATEGORY_CODEWORD_DC layer_type)" "code = c"
  | s i c where "v \<noteq> 0" "1 \<le> s" "i < 2 ^ s" "category_value s i = Inr v"
      "(s, c) \<in> set (HUFFMAN_CATEGORY_CODEWORD_DC layer_type)" "code = c @ format_bin i s"
proof (cases "v = 0")
  case True
  then show ?thesis using assms that(1)
    by (auto simp: index_2d_zero split: sum.splits dest: lookup_in_table)
next
  case False
  have b: "\<bar>v\<bar> < 2 ^ 11" using assms by (auto split: if_splits)
  from category_of_bounded[OF False b] obtain s i where
    si: "index_2d HUFFMAN_CATEGORIES v = Inr (s, i)" "1 \<le> s" "s \<le> 11" "i < 2 ^ s"
      "category_value s i = Inr v" by auto
  then show ?thesis using assms that(2)[OF False si(2,4,5)]
    by (auto split: sum.splits if_splits dest: lookup_in_table)
qed

lemma encode_AC_cases:
  assumes "encode_huffman (ACValue (run, v)) layer_type = Inr code"
  obtains c where "v = 0" "run = 0 \<or> run = 15"
     "((run, 0), c) \<in> set (HUFFMAN_CATEGORY_CODEWORD_AC layer_type)" "code = c"
  | s i c where "v \<noteq> 0" "1 \<le> s" "i < 2 ^ s" "category_value s i = Inr v"
      "((run, s), c) \<in> set (HUFFMAN_CATEGORY_CODEWORD_AC layer_type)"
      "code = c @ format_bin i s"
proof (cases "v = 0")
  case True
  then show ?thesis using assms that(1)
    by (auto simp: EOB_def ZRL_def split: sum.splits if_splits dest: lookup_in_table)
next
  case False
  have b: "\<bar>v\<bar> < 2 ^ 10" using assms False by (auto simp: EOB_def ZRL_def split: if_splits)
  from category_of_bounded[OF False b] obtain s i where
    si: "index_2d HUFFMAN_CATEGORIES v = Inr (s, i)" "1 \<le> s" "s \<le> 10" "i < 2 ^ s"
      "category_value s i = Inr v" by auto
  then show ?thesis using assms False that(2)[OF False si(2,4,5)]
    by (auto simp: EOB_def ZRL_def split: sum.splits if_splits dest: lookup_in_table)
qed

lemma decode_step_DC:
  assumes "encode_huffman (DCValue v) layer_type = Inr code" "drop idx bit_seq = code @ rest"
  shows "decode_step bit_seq DC layer_type idx = Inr (DCValue v, idx + length code)"
  using assms(1)
proof (cases rule: encode_DC_cases)
  case (1 c)
  have "find_codeword (inv_of (HUFFMAN_CATEGORY_CODEWORD_DC layer_type))
     (take (if length bit_seq - idx > 16 then 16 else length bit_seq - idx) (drop idx bit_seq))
     = Some (0, c)"
    using find_codeword_stream[OF good_table_DC 1(2)] assms(2) 1(3) by simp
  then show ?thesis using 1 by (simp add: decode_step_def Let_def)
next
  case (2 s i c)
  have d: "drop idx bit_seq = c @ format_bin i s @ rest" using assms(2) 2(6) by simp
  have "find_codeword (inv_of (HUFFMAN_CATEGORY_CODEWORD_DC layer_type))
     (take (if length bit_seq - idx > 16 then 16 else length bit_seq - idx) (drop idx bit_seq))
     = Some (s, c)"
    by (rule find_codeword_stream[OF good_table_DC 2(5) d])
  then show ?thesis
    using 2 diff_value_stream[OF d 2(3,2)] format_bin_length[OF 2(3,2)]
    by (simp add: decode_step_def Let_def)
qed

lemma decode_step_AC:
  assumes "encode_huffman (ACValue (run, v)) layer_type = Inr code"
    "drop idx bit_seq = code @ rest"
  shows "decode_step bit_seq AC layer_type idx = Inr (ACValue (run, v), idx + length code)"
  using assms(1)
proof (cases rule: encode_AC_cases)
  case (1 c)
  have "find_codeword (inv_of (HUFFMAN_CATEGORY_CODEWORD_AC layer_type))
     (take (if length bit_seq - idx > 16 then 16 else length bit_seq - idx) (drop idx bit_seq))
     = Some ((run, 0), c)"
    using find_codeword_stream[OF good_table_AC 1(3)] assms(2) 1(4) by simp
  then show ?thesis using 1 by (auto simp add: decode_step_def Let_def EOB_def ZRL_def)
next
  case (2 s i c)
  have d: "drop idx bit_seq = c @ format_bin i s @ rest" using assms(2) 2(6) by simp
  have "find_codeword (inv_of (HUFFMAN_CATEGORY_CODEWORD_AC layer_type))
     (take (if length bit_seq - idx > 16 then 16 else length bit_seq - idx) (drop idx bit_seq))
     = Some ((run, s), c)"
    by (rule find_codeword_stream[OF good_table_AC 2(5) d])
  then show ?thesis
    using 2 diff_value_stream[OF d 2(3,2)] format_bin_length[OF 2(3,2)]
    by (simp add: decode_step_def Let_def EOB_def ZRL_def)
qed

lemma decode_step_encode:
  assumes "encode_huffman v layer_type = Inr code" "drop idx bit_seq = code @ rest"
  shows "decode_step bit_seq (mode_of v) layer_type idx = Inr (v, idx + length code)"
proof (cases v)
  case (DCValue d)
  then show ?thesis using decode_step_DC assms by (simp add: mode_of_def)
next
  case (ACValue p)
  then show ?thesis using decode_step_AC[of "fst p" "snd p"] assms by (simp add: mode_of_def)
qed

lemma encode_nonempty:
  assumes "encode_huffman v layer_type = Inr code"
  shows "code \<noteq> []"
proof (cases v)
  case (DCValue d)
  with assms have e: "encode_huffman (DCValue d) layer_type = Inr code" by simp
  show ?thesis using e
  proof (cases rule: encode_DC_cases)
    case (1 c)
    then show ?thesis using good_table_codeword(1)[OF good_table_DC] by auto
  next
    case (2 s i c)
    then show ?thesis using good_table_codeword(1)[OF good_table_DC] by auto
  qed
next
  case (ACValue p)
  obtain run a where "p = (run, a)" by (cases p)
  with assms ACValue have e: "encode_huffman (ACValue (run, a)) layer_type = Inr code" by simp
  show ?thesis using e
  proof (cases rule: encode_AC_cases)
    case (1 c)
    then show ?thesis using good_table_codeword(1)[OF good_table_AC] by auto
  next
    case (2 s i c)
    then show ?thesis using good_table_codeword(1)[OF good_table_AC] by auto
  qed
qed

lemma decode_from_stream:
  assumes "encode_all vs layer_type = Inr code" "drop idx bit_seq = code"
    "\<forall>v \<in> set vs. mode_of v = m"
  shows "decode_from bit_seq m layer_type idx = Inr vs"
  using assms
proof (induction vs arbitrary: idx code)
  case Nil
  then show ?case by (subst decode_from.simps) simp
next
  case (Cons v vs)
  then obtain c1 c2 where c: "encode_huffman v layer_type = Inr c1"
    "encode_all vs layer_type = Inr c2" "code = c1 @ c2"
    by (auto split: sum.splits)
  have d: "drop idx bit_seq = c1 @ c2" using Cons.prems(2) c(3) by simp
  have m: "mode_of v = m" using Cons.prems(3) by simp
  have step: "decode_step bit_seq m layer_type idx = Inr (v, idx + length c1)"
    using decode_step_encode[OF c(1) d] m by simp
  have "idx < length bit_seq"
    using d encode_nonempty[OF c(1)] by (cases "idx < length bit_seq") auto
  moreover have "drop (idx + length c1) bit_seq = c2"
    using d by (metis add.commute append_eq_conv_conj drop_drop)
  then have "decode_from bit_seq m layer_type (idx + length c1) = Inr vs"
    using Cons.IH[OF c(2)] Cons.prems(3) by simp
  ultimately show ?case using step by (subst decode_from.simps) simp
qed

section \<open>The bounds and the round trip of one value\<close>

lemma encode_DC_ok:
  assumes "\<bar>v\<bar> < 2048"
  shows "\<exists>code. encode_huffman (DCValue v) layer_type = Inr code"
proof (cases "v = 0")
  case True
  have "0 \<in> set (map fst (HUFFMAN_CATEGORY_CODEWORD_DC layer_type))"
    unfolding keys_DC by simp
  from lookup_key[OF this] show ?thesis using True by (auto simp: index_2d_zero)
next
  case False
  have b: "\<bar>v\<bar> < 2 ^ 11" using assms by simp
  have "(11::nat) \<le> 15" by simp
  from category_of_bounded[OF False b this] obtain s i where
    si: "index_2d HUFFMAN_CATEGORIES v = Inr (s, i)" "1 \<le> s" "s \<le> 11" by blast
  have "s \<in> set (map fst (HUFFMAN_CATEGORY_CODEWORD_DC layer_type))"
    unfolding keys_DC using si by simp
  from lookup_key[OF this] show ?thesis using assms si by auto
qed

lemma encode_AC_ok:
  assumes "run \<le> 15" "v \<noteq> 0" "\<bar>v\<bar> < 1024"
  shows "\<exists>code. encode_huffman (ACValue (run, v)) layer_type = Inr code"
proof -
  have b: "\<bar>v\<bar> < 2 ^ 10" using assms by simp
  have "(10::nat) \<le> 15" by simp
  from category_of_bounded[OF assms(2) b this] obtain s i where
    si: "index_2d HUFFMAN_CATEGORIES v = Inr (s, i)" "1 \<le> s" "s \<le> 10" by blast
  have "(run, s) \<in> set (map fst (HUFFMAN_CATEGORY_CODEWORD_AC layer_type))"
    unfolding keys_AC using si assms(1) by simp
  from lookup_key[OF this] show ?thesis using assms si by (auto simp: EOB_def ZRL_def)
qed

lemma encode_EOB_ZRL_ok:
  assumes "p = EOB \<or> p = ZRL"
  shows "\<exists>code. encode_huffman (ACValue p) layer_type = Inr code"
proof -
  have "(0, 0) \<in> set (map fst (HUFFMAN_CATEGORY_CODEWORD_AC layer_type))"
    "(15, 0) \<in> set (map fst (HUFFMAN_CATEGORY_CODEWORD_AC layer_type))"
    unfolding keys_AC by simp_all
  from lookup_key[OF this(1)] lookup_key[OF this(2)] show ?thesis
    using assms by (auto simp: EOB_def ZRL_def)
qed

lemma decode_huffman_single:
  assumes "encode_huffman v layer_type = Inr code"
  shows "decode_huffman code (mode_of v) layer_type = Inr [v]"
proof -
  have "encode_all [v] layer_type = Inr code" using assms by simp
  from decode_from_stream[OF this, of 0 code "mode_of v"] show ?thesis
    by (simp add: decode_huffman_def)
qed

text \<open>
  Claim C7. For a differential DC \<open>v\<close>, \<open>encode_huffman\<close> raises \<open>ValueError\<close> when
  \<open>\<bar>v\<bar> \<ge> 2048\<close> and returns a bit string otherwise. For an AC pair \<open>(run, a)\<close> with
  \<open>run \<le> 15\<close> that is neither \<open>EOB\<close> nor \<open>ZRL\<close>, it raises \<open>ValueError\<close> when \<open>a = 0\<close> or
  \<open>\<bar>a\<bar> \<ge> 1024\<close> and returns a bit string otherwise. So it raises exactly when the argument
  is out of bounds.
\<close>

theorem encode_huffman_out_of_range:
  "(\<bar>v\<bar> \<ge> 2048 \<longrightarrow> encode_huffman (DCValue v) layer_type = Inl ValueError) \<and>
   (\<bar>v\<bar> < 2048 \<longrightarrow> (\<exists>code. encode_huffman (DCValue v) layer_type = Inr code)) \<and>
   (run \<le> 15 \<and> (run, a) \<noteq> EOB \<and> (run, a) \<noteq> ZRL \<longrightarrow>
      (a = 0 \<or> \<bar>a\<bar> \<ge> 1024 \<longrightarrow> encode_huffman (ACValue (run, a)) layer_type = Inl ValueError) \<and>
      (\<not> (a = 0 \<or> \<bar>a\<bar> \<ge> 1024) \<longrightarrow>
         (\<exists>code. encode_huffman (ACValue (run, a)) layer_type = Inr code)))"
proof (intro conjI impI)
  assume "\<bar>v\<bar> \<ge> 2048"
  then show "encode_huffman (DCValue v) layer_type = Inl ValueError" by auto
next
  assume "\<bar>v\<bar> < 2048"
  then show "\<exists>code. encode_huffman (DCValue v) layer_type = Inr code" by (rule encode_DC_ok)
next
  assume "run \<le> 15 \<and> (run, a) \<noteq> EOB \<and> (run, a) \<noteq> ZRL" "a = 0 \<or> \<bar>a\<bar> \<ge> 1024"
  then show "encode_huffman (ACValue (run, a)) layer_type = Inl ValueError" by auto
next
  assume "run \<le> 15 \<and> (run, a) \<noteq> EOB \<and> (run, a) \<noteq> ZRL" "\<not> (a = 0 \<or> \<bar>a\<bar> \<ge> 1024)"
  then show "\<exists>code. encode_huffman (ACValue (run, a)) layer_type = Inr code"
    using encode_AC_ok[of run a layer_type] by simp
qed

theorem encode_huffman_out_of_range_witness:
  "encode_huffman (DCValue 2048) LUMINANCE = Inl ValueError \<and>
   (\<exists>code. encode_huffman (DCValue (-2047)) LUMINANCE = Inr code) \<and>
   encode_huffman (ACValue (3, 0)) CHROMINANCE = Inl ValueError \<and>
   encode_huffman (ACValue (3, -1024)) CHROMINANCE = Inl ValueError \<and>
   (\<exists>code. encode_huffman (ACValue (3, 1023)) CHROMINANCE = Inr code)"
  using encode_huffman_out_of_range[of 2048 LUMINANCE 3 0]
    encode_huffman_out_of_range[of "-2047" LUMINANCE 3 0]
    encode_huffman_out_of_range[of 0 CHROMINANCE 3 0]
    encode_huffman_out_of_range[of 0 CHROMINANCE 3 "-1024"]
    encode_huffman_out_of_range[of 0 CHROMINANCE 3 1023]
  by (simp add: EOB_def ZRL_def)

text \<open>
  Claim C5. For every layer type, the bit string that \<open>encode_huffman\<close> produces for a
  differential DC \<open>v\<close> with \<open>\<bar>v\<bar> \<le> 2047\<close> decodes in DC mode to exactly the one value \<open>v\<close>,
  and the bit string it produces for \<open>EOB\<close>, for \<open>ZRL\<close>, or for a pair \<open>(run, a)\<close> with
  \<open>run \<le> 15\<close> and \<open>1 \<le> \<bar>a\<bar> \<le> 1023\<close> decodes in AC mode to exactly that one pair.
\<close>

theorem huffman_symbol_roundtrip:
  "(\<bar>v\<bar> \<le> 2047 \<longrightarrow>
      (\<exists>code. encode_huffman (DCValue v) layer_type = Inr code \<and>
         decode_huffman code DC layer_type = Inr [DCValue v])) \<and>
   ((run, a) = EOB \<or> (run, a) = ZRL \<or> (run \<le> 15 \<and> 1 \<le> \<bar>a\<bar> \<and> \<bar>a\<bar> \<le> 1023) \<longrightarrow>
      (\<exists>code. encode_huffman (ACValue (run, a)) layer_type = Inr code \<and>
         decode_huffman code AC layer_type = Inr [ACValue (run, a)]))"
proof (intro conjI impI)
  assume "\<bar>v\<bar> \<le> 2047"
  then obtain code where c: "encode_huffman (DCValue v) layer_type = Inr code"
    using encode_DC_ok[of v layer_type] by auto
  from decode_huffman_single[OF c] c
  show "\<exists>code. encode_huffman (DCValue v) layer_type = Inr code \<and>
         decode_huffman code DC layer_type = Inr [DCValue v]"
    by (auto simp: mode_of_def)
next
  assume "(run, a) = EOB \<or> (run, a) = ZRL \<or> (run \<le> 15 \<and> 1 \<le> \<bar>a\<bar> \<and> \<bar>a\<bar> \<le> 1023)"
  then obtain code where c: "encode_huffman (ACValue (run, a)) layer_type = Inr code"
    using encode_AC_ok[of run a layer_type] encode_EOB_ZRL_ok[of "(run, a)" layer_type]
    by fastforce
  from decode_huffman_single[OF c] c
  show "\<exists>code. encode_huffman (ACValue (run, a)) layer_type = Inr code \<and>
         decode_huffman code AC layer_type = Inr [ACValue (run, a)]"
    by (auto simp: mode_of_def)
qed


lemma bin_digits_2: "bin_digits 2 = ''10''"
  by (simp add: bin_digits.simps[of 2] bin_digits.simps[of "Suc 0"])

theorem huffman_symbol_roundtrip_witness:
  "encode_huffman (DCValue (-5)) LUMINANCE = Inr ''100010'' \<and>
   decode_huffman ''100010'' DC LUMINANCE = Inr [DCValue (-5)] \<and>
   (\<exists>code. encode_huffman (ACValue (3, 7)) CHROMINANCE = Inr code \<and>
      decode_huffman code AC CHROMINANCE = Inr [ACValue (3, 7)])"
proof -
  have "encode_huffman (DCValue (-5)) LUMINANCE = Inr ''100010''"
    by (simp add: category_3 lookup_def HUFFMAN_CATEGORY_CODEWORD_DC_def
        DC_LUMINANCE_CODEWORD_def format_bin_def bin_digits_2)
  then show ?thesis
    using huffman_symbol_roundtrip[of "-5" LUMINANCE 3 7]
      huffman_symbol_roundtrip[of "-5" CHROMINANCE 3 7]
    by simp
qed

section \<open>Run-length coding\<close>

lemma groupby_head: "groupby ys = (n, k) # gs \<Longrightarrow> ys \<noteq> [] \<and> hd ys = k"
  by (cases ys) auto

lemma ungroup_groupby: "ungroup (groupby xs) = xs"
proof (induction xs rule: groupby.induct)
  case 1
  then show ?case by (simp add: ungroup_def)
next
  case (2 key seq)
  have "replicate (length (takeWhile (\<lambda>item. item = key) seq)) key
      = takeWhile (\<lambda>item. item = key) seq"
    by (rule replicate_length_same) (auto dest: set_takeWhileD)
  then show ?case using 2 by (simp add: ungroup_def)
qed

lemma groupby_lengths: "\<forall>(n, k) \<in> set (groupby xs). 1 \<le> n"
  by (induction xs rule: groupby.induct) auto

lemma groupby_keys: "snd ` set (groupby xs) \<subseteq> set xs"
proof (induction xs rule: groupby.induct)
  case 1
  then show ?case by simp
next
  case (2 key seq)
  have "set (dropWhile (\<lambda>item. item = key) seq) \<subseteq> set seq"
    by (auto dest: set_dropWhileD)
  then show ?case using 2 by auto
qed

lemma groupby_adjacent: "distinct_adj (map snd (groupby xs))"
proof (induction xs rule: groupby.induct)
  case 1
  then show ?case by simp
next
  case (2 key seq)
  show ?case
  proof (cases "groupby (dropWhile (\<lambda>item. item = key) seq)")
    case Nil
    then show ?thesis by simp
  next
    case (Cons g gs)
    obtain n k where g: "g = (n, k)" by (cases g)
    from groupby_head[OF Cons[unfolded g]]
    have "k \<noteq> key" using hd_dropWhile[of "\<lambda>item. item = key" seq] by auto
    then show ?thesis using 2 Cons g by simp
  qed
qed

lemma zrl_loop_eq: "zrl_loop len ret = (len mod 16, ret @ replicate (len div 16) ZRL)"
proof (induction len ret rule: zrl_loop.induct)
  case (1 len ret)
  show ?case
  proof (cases "len \<ge> 16")
    case True
    then have "len div 16 = Suc ((len - 16) div 16)" "len mod 16 = (len - 16) mod 16"
      by (simp_all add: le_div_geq le_mod_geq)
    then show ?thesis using 1[OF True] True
      by (subst zrl_loop.simps) (simp add: replicate_append_same)
  next
    case False
    then show ?thesis by (subst zrl_loop.simps) simp
  qed
qed

lemma flat_append: "flat (xs @ ys) = flat xs @ flat ys"
  by (simp add: flat_def)

lemma flat_ZRLs: "flat (replicate n ZRL) = replicate (16 * n) 0"
proof (induction n)
  case 0
  then show ?case by (simp add: flat_def)
next
  case (Suc n)
  have "flat (replicate (Suc n) ZRL) = (replicate 15 0 @ [0]) @ flat (replicate n ZRL)"
    by (simp add: flat_def ZRL_def)
  also have "replicate 15 (0::int) @ [0] = replicate 16 0"
    using replicate_add[of 15 1 "0::int"] by simp
  finally show ?case using Suc by (simp add: replicate_add[symmetric] del: replicate_Suc)
qed

lemma flat_pairs: "flat (replicate n (0, k)) = replicate n k"
  by (induction n) (simp_all add: flat_def)

lemma flat_run: "flat (replicate (len div 16) ZRL @ [(len mod 16, k)]) = replicate len 0 @ [k]"
proof -
  have "replicate (16 * (len div 16)) (0::int) @ replicate (len mod 16) 0 = replicate len 0"
    by (simp add: replicate_add[symmetric])
  then show ?thesis
    by (simp add: flat_append flat_ZRLs) (simp add: flat_def)
qed

lemma flat_run':
  "flat (replicate (len div 16) ZRL) @ flat [(len mod 16, k)] @ zs = replicate len 0 @ [k] @ zs"
  using flat_run[of len k] by (simp add: flat_append)

lemma ungroup_Cons: "ungroup ((n, k) # gs) = replicate n k @ ungroup gs"
  by (simp add: ungroup_def)

lemma valid_symbol_not_EOB: "valid_symbol vals p \<Longrightarrow> p \<noteq> EOB"
  by (auto simp: valid_symbol_def EOB_def ZRL_def)

lemma run_length_loop_flat:
  assumes "snd ` set groups \<subseteq> vals"
  shows "groups = pre @ rest \<Longrightarrow> idx = length pre \<Longrightarrow>
    \<forall>(n, k) \<in> set rest. 1 \<le> n \<Longrightarrow> rest \<noteq> [] \<longrightarrow> snd (last rest) \<noteq> 0 \<Longrightarrow>
    distinct_adj (map snd rest) \<Longrightarrow> \<forall>p \<in> set ret. valid_symbol vals p \<Longrightarrow>
    \<exists>ret'. run_length_loop groups idx rest borrow ret = Inr ret' \<and>
    flat ret' = flat ret @ (if borrow then tl (ungroup rest) else ungroup rest) \<and>
    (\<forall>p \<in> set ret'. valid_symbol vals p)"
proof (induction rest arbitrary: pre idx borrow ret)
  case Nil
  then show ?case by (simp add: ungroup_def)
next
  case (Cons g rest)
  obtain len0 key where g: "g = (len0, key)" by (cases g)
  define len where "len = (if borrow then len0 - 1 else len0)"
  have len0: "1 \<le> len0" using Cons.prems(3) g by simp
  have pre': "groups = (pre @ [g]) @ rest" "Suc idx = length (pre @ [g])"
    using Cons.prems(1,2) by simp_all
  have rest_len: "\<forall>(n, k) \<in> set rest. 1 \<le> n" using Cons.prems(3) by simp
  have rest_last: "rest \<noteq> [] \<longrightarrow> snd (last rest) \<noteq> 0" using Cons.prems(4) by auto
  have rest_adj: "distinct_adj (map snd rest)" using Cons.prems(5) by (cases rest) auto
  have target: "(if borrow then tl (ungroup (g # rest)) else ungroup (g # rest))
      = replicate len key @ ungroup rest"
    using len0 unfolding g len_def ungroup_Cons by (cases len0) auto
  show ?case
  proof (cases "len = 0")
    case True
    from Cons.IH[OF pre' rest_len rest_last rest_adj Cons.prems(6), of False]
    show ?thesis using True target unfolding g len_def by (simp add: Let_def)
  next
    case False
    show ?thesis
    proof (cases "key = 0")
      case key0: True
      then have "rest \<noteq> []" using Cons.prems(4) g by auto
      then obtain n' k' rest' where r: "rest = (n', k') # rest'" by (cases rest) auto
      have k': "k' \<noteq> 0" using Cons.prems(5) g r key0 by simp
      have n': "1 \<le> n'" using rest_len r by simp
      have nxt: "idx + 1 < length groups" "snd (groups ! (idx + 1)) = k'"
        using Cons.prems(1,2) r by (simp_all add: nth_append)
      let ?ret = "ret @ replicate (len div 16) ZRL @ [(len mod 16, k')]"
      have "k' \<in> vals" using assms Cons.prems(1) r by auto
      then have noeob: "\<forall>p \<in> set ?ret. valid_symbol vals p"
        using Cons.prems(6) k' by (auto simp: valid_symbol_def)
      from Cons.IH[OF pre' rest_len rest_last rest_adj noeob, of True]
      obtain ret' where ret': "run_length_loop groups (Suc idx) rest True ?ret = Inr ret'"
        "flat ret' = flat ?ret @ tl (ungroup rest)" "\<forall>p \<in> set ret'. valid_symbol vals p" by auto
      have "flat ?ret @ tl (ungroup rest) = flat ret @ replicate len 0 @ ungroup rest"
        using n' unfolding r ungroup_Cons flat_append by (cases n') (auto simp: flat_run')
      then show ?thesis
        using ret' False key0 nxt target unfolding g len_def[symmetric]
        by (simp add: Let_def zrl_loop_eq len_def[symmetric])
    next
      case keyn: False
      let ?ret = "ret @ replicate len (0, key)"
      have "key \<in> vals" using assms Cons.prems(1) g by auto
      then have noeob: "\<forall>p \<in> set ?ret. valid_symbol vals p"
        using Cons.prems(6) keyn by (auto simp: valid_symbol_def)
      from Cons.IH[OF pre' rest_len rest_last rest_adj noeob, of False]
      show ?thesis using False keyn target unfolding g len_def
        by (simp add: Let_def flat_append flat_pairs)
    qed
  qed
qed


lemma ungroup_append: "ungroup (xs @ ys) = ungroup xs @ ungroup ys"
  by (simp add: ungroup_def)

lemma last_ungroup:
  assumes "gs \<noteq> []" "\<forall>(n, k) \<in> set gs. 1 \<le> n"
  shows "ungroup gs \<noteq> [] \<and> last (ungroup gs) = snd (last gs)"
proof -
  obtain n k where l: "last gs = (n, k)" by (cases "last gs")
  have gs: "gs = butlast gs @ [(n, k)]" using assms(1) l by (metis append_butlast_last_id)
  have "(n, k) \<in> set gs" using assms(1) l by (metis last_in_set)
  then have "1 \<le> n" using assms(2) by auto
  then have "ungroup [(n, k)] \<noteq> [] \<and> last (ungroup [(n, k)]) = k"
    by (cases n) (auto simp: ungroup_def)
  then show ?thesis using l
    by (subst (1 2) gs) (simp add: ungroup_append)
qed

lemma without_trailing_zeros_unique:
  assumes "xs = [] \<or> last xs \<noteq> 0"
  shows "without_trailing_zeros (xs @ replicate m 0) = xs"
proof -
  have "dropWhile (\<lambda>item. item = 0) (replicate m (0::int) @ rev xs) = dropWhile (\<lambda>item. item = 0) (rev xs)"
    by (induction m) auto
  moreover have "dropWhile (\<lambda>item. item = 0) (rev xs) = rev xs"
    using assms by (cases "rev xs") (auto simp: last_rev hd_rev[symmetric])
  ultimately show ?thesis by (simp add: without_trailing_zeros_def)
qed

lemma without_trailing_zeros_pad:
  "without_trailing_zeros seq @ replicate (length seq - length (without_trailing_zeros seq)) 0 = seq"
proof -
  let ?P = "\<lambda>item::int. item = 0"
  have z: "takeWhile ?P (rev seq) = replicate (length (takeWhile ?P (rev seq))) 0"
    by (rule sym, rule replicate_length_same) (auto dest: set_takeWhileD)
  have "rev seq = takeWhile ?P (rev seq) @ dropWhile ?P (rev seq)" by simp
  then have "seq = rev (dropWhile ?P (rev seq)) @ rev (takeWhile ?P (rev seq))"
    by (metis rev_append rev_rev_ident)
  also have "rev (takeWhile ?P (rev seq)) = replicate (length (takeWhile ?P (rev seq))) 0"
    by (subst z) simp
  finally have s: "seq = without_trailing_zeros seq @ replicate (length (takeWhile ?P (rev seq))) 0"
    by (simp add: without_trailing_zeros_def)
  have "length seq - length (without_trailing_zeros seq) = length (takeWhile ?P (rev seq))"
    using arg_cong[OF s, of length] by simp
  then show ?thesis using s by simp
qed

lemma without_trailing_zeros_same:
  "without_trailing_zeros seq = seq \<longleftrightarrow> seq = [] \<or> last seq \<noteq> 0"
proof
  assume "without_trailing_zeros seq = seq"
  show "seq = [] \<or> last seq \<noteq> 0"
  proof (rule ccontr)
    assume "\<not> (seq = [] \<or> last seq \<noteq> 0)"
    then obtain bs where bs: "seq = bs @ [0]" by (metis append_butlast_last_id)
    have "length (dropWhile (\<lambda>item. item = 0) (rev bs)) \<le> length bs"
      using length_dropWhile_le[of "\<lambda>item. item = 0" "rev bs"] by simp
    then have "length (without_trailing_zeros seq) < length seq"
      unfolding without_trailing_zeros_def bs by simp
    then show False using \<open>without_trailing_zeros seq = seq\<close> by simp
  qed
next
  assume "seq = [] \<or> last seq \<noteq> 0"
  from without_trailing_zeros_unique[OF this, of 0] show "without_trailing_zeros seq = seq" by simp
qed

lemma encode_run_length_result:
  assumes "seq \<noteq> []"
  shows "\<exists>ret. encode_run_length seq = Inr (ret @ [EOB]) \<and> EOB \<notin> set ret \<and>
    flat ret = without_trailing_zeros seq \<and> (\<forall>p \<in> set ret. valid_symbol (set seq) p)"
proof -
  define groups where "groups = groupby seq"
  define trimmed where "trimmed = (if snd (last groups) = 0 then butlast groups else groups)"
  have ne: "groups \<noteq> []" using assms unfolding groups_def by (cases seq) auto
  have lens: "\<forall>(n, k) \<in> set groups. 1 \<le> n" unfolding groups_def by (rule groupby_lengths)
  have adj: "distinct_adj (map snd groups)" unfolding groups_def by (rule groupby_adjacent)
  have g: "groups = butlast groups @ [last groups]" using ne by simp
  have t_lens: "\<forall>(n, k) \<in> set trimmed. 1 \<le> n"
    using lens unfolding trimmed_def by (auto dest: in_set_butlastD)
  have "distinct_adj (map snd (butlast groups))"
    using adj by (subst (asm) g) (simp add: distinct_adj_append_iff)
  then have t_adj: "distinct_adj (map snd trimmed)" using adj unfolding trimmed_def by simp
  have t_last: "trimmed \<noteq> [] \<longrightarrow> snd (last trimmed) \<noteq> 0"
  proof (cases "snd (last groups) = 0")
    case True
    show ?thesis
    proof
      assume "trimmed \<noteq> []"
      then have b: "butlast groups \<noteq> []" using True unfolding trimmed_def by simp
      have "distinct_adj (map snd (butlast groups) @ [snd (last groups)])"
        using adj by (subst (asm) g) simp
      then have "last (map snd (butlast groups)) \<noteq> snd (last groups)"
        using b by (simp add: distinct_adj_append_iff)
      then show "snd (last trimmed) \<noteq> 0"
        using True b unfolding trimmed_def by (simp add: last_map)
    qed
  next
    case False
    then show ?thesis unfolding trimmed_def by simp
  qed
  have "\<exists>m. seq = ungroup trimmed @ replicate m 0"
  proof (cases "snd (last groups) = 0")
    case True
    obtain n k where l: "last groups = (n, k)" by (cases "last groups")
    have "ungroup groups = ungroup (butlast groups) @ ungroup [last groups]"
      by (subst g) (simp add: ungroup_append)
    moreover have "ungroup groups = seq" by (simp add: groups_def ungroup_groupby)
    moreover have "ungroup [last groups] = replicate n 0" using True l by (simp add: ungroup_def)
    ultimately have "seq = ungroup trimmed @ replicate n 0"
      using True unfolding trimmed_def by simp
    then show ?thesis by blast
  next
    case False
    then show ?thesis unfolding trimmed_def groups_def
      by (auto simp: ungroup_groupby intro!: exI[of _ 0])
  qed
  then obtain m where m: "seq = ungroup trimmed @ replicate m 0" by blast
  have "ungroup trimmed = [] \<or> last (ungroup trimmed) \<noteq> 0"
    using last_ungroup[OF _ t_lens] t_last by (cases "trimmed = []") (auto simp: ungroup_def)
  from without_trailing_zeros_unique[OF this, of m]
  have strip: "without_trailing_zeros seq = ungroup trimmed" using m by simp
  have "snd ` set groups \<subseteq> set seq" unfolding groups_def by (rule groupby_keys)
  then have vals: "snd ` set trimmed \<subseteq> set seq"
    unfolding trimmed_def by (auto dest: in_set_butlastD)
  from run_length_loop_flat[OF vals, of "[]" trimmed 0 "[]" False, OF _ _ t_lens t_last t_adj]
  obtain ret where ret: "run_length_loop trimmed 0 trimmed False [] = Inr ret"
    "flat ret = ungroup trimmed" "\<forall>p \<in> set ret. valid_symbol (set seq) p"
    by (auto simp: flat_def)
  have noeob: "EOB \<notin> set ret" using ret(3) valid_symbol_not_EOB by blast
  have "encode_run_length seq = Inr (ret @ [EOB])"
    using ne ret(1) unfolding encode_run_length_def groups_def[symmetric] Let_def
      trimmed_def[symmetric] by simp
  then show ?thesis using ret strip noeob by auto
qed

lemma decode_run_length_EOB: "decode_run_length (ret @ [EOB]) = flat ret"
  by (simp add: decode_run_length_def flat_def EOB_def butlast_append)


lemma run_length_decode_encode:
  assumes "seq \<noteq> []"
  shows "\<exists>symbols. encode_run_length seq = Inr symbols \<and>
    decode_run_length symbols = without_trailing_zeros seq"
  using encode_run_length_result[OF assms] by (auto simp: decode_run_length_EOB)

text \<open>
  Claim C2 says that \<open>decode_run_length (encode_run_length a) = a\<close> for every vector \<open>a\<close> of
  63 AC coefficients, and that the decoded result has 63 values. The block of 63 zeros is
  encoded as the single symbol \<open>EOB\<close>, which decodes to the empty sequence.
\<close>

theorem run_length_roundtrip_counterexample:
  "encode_run_length (replicate 63 0) = Inr [EOB] \<and>
   decode_run_length [EOB] = [] \<and>
   decode_run_length [EOB] \<noteq> replicate 63 0"
proof -
  have g: "groupby (replicate 63 0) = [(63, 0)]"
    using groupby.simps(2)[of 0 "replicate 62 0"] by (simp add: eval_nat_numeral)
  have "encode_run_length (replicate 63 0) = Inr [EOB]"
    by (simp add: encode_run_length_def g)
  moreover have "decode_run_length [EOB] = []"
    by (simp add: decode_run_length_def EOB_def)
  ultimately show ?thesis by simp
qed

text \<open>
  Claim C2, amended. For every vector \<open>a\<close> of 63 AC coefficients,
  \<open>decode_run_length (encode_run_length a)\<close> is \<open>a\<close> without the zeros at its end; filling it
  with zeros up to 63 values gives \<open>a\<close> back, and it is \<open>a\<close> itself exactly when the last
  coefficient of \<open>a\<close> is not zero.
\<close>

theorem run_length_roundtrip:
  assumes "length a = 63"
  shows "\<exists>symbols. encode_run_length a = Inr symbols \<and>
    decode_run_length symbols = without_trailing_zeros a \<and>
    decode_run_length symbols @ replicate (63 - length (decode_run_length symbols)) 0 = a \<and>
    (decode_run_length symbols = a \<longleftrightarrow> last a \<noteq> 0)"
proof -
  have ne: "a \<noteq> []" using assms by auto
  from run_length_decode_encode[OF ne] obtain symbols where
    s: "encode_run_length a = Inr symbols" "decode_run_length symbols = without_trailing_zeros a"
    by blast
  have "decode_run_length symbols @ replicate (63 - length (decode_run_length symbols)) 0 = a"
    using without_trailing_zeros_pad[of a] assms s(2) by simp
  moreover have "decode_run_length symbols = a \<longleftrightarrow> last a \<noteq> 0"
    using without_trailing_zeros_same[of a] ne s(2) by simp
  ultimately show ?thesis using s by blast
qed

theorem run_length_roundtrip_witness:
  "\<exists>symbols. encode_run_length (replicate 62 0 @ [5]) = Inr symbols \<and>
     decode_run_length symbols = replicate 62 0 @ [5]"
proof -
  have "length (replicate 62 (0::int) @ [5]) = 63" by simp
  from run_length_roundtrip[OF this] show ?thesis by auto
qed

section \<open>Splitting the AC symbols at EOB\<close>

lemma isplit_from_no_splitter: "splitter \<notin> set xs \<Longrightarrow> isplit_from xs splitter ret = []"
  by (induction xs arbitrary: ret) auto

lemma isplit_from_trailing:
  assumes "xs = [] \<or> last xs = splitter" "splitter \<notin> set ys"
  shows "isplit_from (xs @ ys) splitter ret = isplit_from xs splitter ret"
  using assms
proof (induction xs arbitrary: ret)
  case Nil
  then show ?case by (simp add: isplit_from_no_splitter)
next
  case (Cons x xs)
  then show ?case by (cases "xs = []") auto
qed

lemma length_isplit_from: "length (isplit_from xs splitter ret) = count_list xs splitter"
  by (induction xs arbitrary: ret) auto

lemma isplit_from_append:
  "isplit_from ((xs @ [splitter]) @ ys) splitter ret =
     isplit_from (xs @ [splitter]) splitter ret @ isplit_from ys splitter []"
  by (induction xs arbitrary: ret) auto

lemma isplit_from_group:
  "splitter \<notin> set xs \<Longrightarrow> isplit_from (xs @ [splitter]) splitter ret = [ret @ xs @ [splitter]]"
  by (induction xs arbitrary: ret) auto

text \<open>
  Claim C10. When the symbols decoded from an AC bit string are some groups that each end
  with \<open>EOB\<close>, followed by symbols without an \<open>EOB\<close>, \<open>Decoder._get_ac\<close> raises no error and
  returns the decoded groups only: the trailing symbols are dropped, the number of blocks is the
  number of \<open>EOB\<close> symbols, and a stream without any \<open>EOB\<close> gives no block at all.
\<close>

theorem get_ac_discards_trailing:
  assumes "decode_huffman bit_seq AC layer_type = Inr vs"
    "ac_values vs = groups @ trailing"
    "groups = [] \<or> last groups = EOB"
    "EOB \<notin> set trailing"
  shows "get_ac bit_seq layer_type = Inr (map decode_run_length (isplit groups EOB)) \<and>
    length (isplit groups EOB) = count_list (ac_values vs) EOB \<and>
    (groups = [] \<longrightarrow> get_ac bit_seq layer_type = Inr [])"
proof -
  have "isplit (ac_values vs) EOB = isplit groups EOB"
    unfolding isplit_def assms(2) by (rule isplit_from_trailing[OF assms(3,4)])
  moreover have "length (isplit (ac_values vs) EOB) = count_list (ac_values vs) EOB"
    unfolding isplit_def by (rule length_isplit_from)
  ultimately show ?thesis
    using assms(1) by (auto simp: get_ac_def isplit_def)
qed

lemma encode_01: "encode_huffman (ACValue (0, 1)) LUMINANCE = Inr ''001''"
  by (simp add: EOB_def ZRL_def category_1 lookup_def HUFFMAN_CATEGORY_CODEWORD_AC_def
      AC_LUMINANCE_CODEWORD_def format_bin_def bin_digits.simps[of "Suc 0"])

lemma encode_EOB: "encode_huffman (ACValue (0, 0)) LUMINANCE = Inr ''1010''"
  by (simp add: EOB_def ZRL_def lookup_def HUFFMAN_CATEGORY_CODEWORD_AC_def
      AC_LUMINANCE_CODEWORD_def)

theorem get_ac_discards_trailing_witness:
  "decode_huffman ''1010001'' AC LUMINANCE = Inr [ACValue EOB, ACValue (0, 1)] \<and>
   get_ac ''1010001'' LUMINANCE = Inr [[]] \<and>
   decode_huffman ''001'' AC LUMINANCE = Inr [ACValue (0, 1)] \<and>
   get_ac ''001'' LUMINANCE = Inr []"
proof -
  have "encode_all [ACValue (0, 0), ACValue (0, 1)] LUMINANCE = Inr ''1010001''"
    by (simp add: encode_01 encode_EOB del: encode_huffman.simps)
  from decode_from_stream[OF this, of 0 "''1010001''" AC]
  have 1: "decode_huffman ''1010001'' AC LUMINANCE = Inr [ACValue EOB, ACValue (0, 1)]"
    by (simp add: decode_huffman_def mode_of_def EOB_def)
  have "encode_all [ACValue (0, 1)] LUMINANCE = Inr ''001''"
    by (simp add: encode_01 del: encode_huffman.simps)
  from decode_from_stream[OF this, of 0 "''001''" AC]
  have 2: "decode_huffman ''001'' AC LUMINANCE = Inr [ACValue (0, 1)]"
    by (simp add: decode_huffman_def mode_of_def)
  have 3: "get_ac ''1010001'' LUMINANCE = Inr [[]]"
    using get_ac_discards_trailing[OF 1, of "[EOB]" "[(0, 1)]"]
    by (simp add: ac_values_def EOB_def isplit_def decode_run_length_def)
  have 4: "get_ac ''001'' LUMINANCE = Inr []"
    using get_ac_discards_trailing[OF 2, of "[]" "[(0, 1)]"]
    by (simp add: ac_values_def EOB_def isplit_def)
  show ?thesis using 1 2 3 4 by simp
qed

section \<open>The zig-zag order visits every cell once\<close>

lemma step_increases_xy:
  "(diag_key (x, y), diag_key (zig_zag_step sz (x, y))) \<in> less_than <*lex*> less_than"
  by (cases "(x + y) mod 2 = 1"; cases x; cases y)
    (auto simp: zig_zag_step_def move_zig_zag_idx_def diag_key_def split: if_splits)

lemma step_increases: "zz_less p (zig_zag_step sz p)"
  using step_increases_xy[of "fst p" "snd p" sz] by simp

lemma step_in_range:
  assumes "in_range sz p" "p \<noteq> (sz - 1, sz - 1)"
  shows "in_range sz (zig_zag_step sz p)"
proof -
  obtain x y where p: "p = (x, y)" by (cases p)
  show ?thesis
    using assms unfolding p
    by (auto simp: zig_zag_step_def move_zig_zag_idx_def in_range_def split: if_splits prod.splits)
qed

lemma step_predecessor:
  assumes "in_range sz c" "c \<noteq> (0, 0)"
  shows "\<exists>p. in_range sz p \<and> zig_zag_step sz p = c"
proof -
  obtain x y where c: "c = (x, y)" by (cases c)
  have xy: "x < sz" "y < sz" using assms(1) c by (auto simp: in_range_def)
  show ?thesis
  proof (cases "(x + y) mod 2 = 1")
    case odd: True
    show ?thesis
    proof (cases "y \<ge> 1 \<and> x + 1 < sz")
      case True
      then have "(x + 1 + (y - 1)) mod 2 = 1" using odd by (cases y) auto
      then have "zig_zag_step sz (x + 1, y - 1) = (x, y)" using True xy
        by (auto simp: zig_zag_step_def move_zig_zag_idx_def)
      then show ?thesis using True xy unfolding c
        by (intro exI[of _ "(x + 1, y - 1)"]) (auto simp: in_range_def)
    next
      case False
      show ?thesis
      proof (cases "y = 0")
        case True
        then have x1: "x \<ge> 1" using odd by (cases x) auto
        then have "(x - 1 + 0) mod 2 \<noteq> 1" using odd True by (cases x) (auto, presburger)
        then have "zig_zag_step sz (x - 1, 0) = (x, 0)" using x1 xy
          by (auto simp: zig_zag_step_def move_zig_zag_idx_def)
        then show ?thesis using True x1 xy unfolding c
          by (intro exI[of _ "(x - 1, 0)"]) (auto simp: in_range_def)
      next
        case y: False
        then have x: "x = sz - 1" using False xy by auto
        have "(x + (y - 1)) mod 2 \<noteq> 1" using odd y by (cases y) (auto, presburger)
        then have "zig_zag_step sz (x, y - 1) = (x, y)" using x y xy
          by (auto simp: zig_zag_step_def move_zig_zag_idx_def)
        then show ?thesis using y xy unfolding c
          by (intro exI[of _ "(x, y - 1)"]) (auto simp: in_range_def)
      qed
    qed
  next
    case even: False
    show ?thesis
    proof (cases "x \<ge> 1 \<and> y + 1 < sz")
      case True
      then have "(x - 1 + (y + 1)) mod 2 \<noteq> 1" using even by (cases x) auto
      then have "zig_zag_step sz (x - 1, y + 1) = (x, y)" using True xy
        by (auto simp: zig_zag_step_def move_zig_zag_idx_def)
      then show ?thesis using True xy unfolding c
        by (intro exI[of _ "(x - 1, y + 1)"]) (auto simp: in_range_def)
    next
      case False
      show ?thesis
      proof (cases "x = 0")
        case True
        then have y1: "y \<ge> 1" using assms(2) c by (cases y) auto
        then have "(0 + (y - 1)) mod 2 = 1" using even True by (cases y) (auto, presburger)
        then have "zig_zag_step sz (0, y - 1) = (0, y)" using y1 xy
          by (auto simp: zig_zag_step_def move_zig_zag_idx_def)
        then show ?thesis using True y1 xy unfolding c
          by (intro exI[of _ "(0, y - 1)"]) (auto simp: in_range_def)
      next
        case x: False
        then have y: "y = sz - 1" using False xy by auto
        have "(x - 1 + y) mod 2 = 1" using even x by (cases x) (auto, presburger)
        then have "zig_zag_step sz (x - 1, y) = (x, y)" using x y xy
          by (auto simp: zig_zag_step_def move_zig_zag_idx_def)
        then show ?thesis using x xy unfolding c
          by (intro exI[of _ "(x - 1, y)"]) (auto simp: in_range_def)
      qed
    qed
  qed
qed

lemma last_is_greatest:
  assumes "in_range sz c" "c \<noteq> (sz - 1, sz - 1)"
  shows "zz_less c (sz - 1, sz - 1)"
proof -
  obtain x y where c: "c = (x, y)" by (cases c)
  have "x + y < (sz - 1) + (sz - 1)" using assms unfolding c in_range_def by auto
  then show ?thesis unfolding c by (auto simp add: diag_key_def)
qed


lemma zz_less_trans: "zz_less p q \<Longrightarrow> zz_less q r \<Longrightarrow> zz_less p r"
  by (auto simp: diag_key_def split: if_splits)

lemma zz_less_irrefl: "\<not> zz_less p p"
  by (simp add: diag_key_def)

lemma pos_Suc: "zig_zag_pos sz (Suc k) = zig_zag_step sz (zig_zag_pos sz k)"
  by (simp add: zig_zag_pos_def)

lemma pos_mono: "j < k \<Longrightarrow> zz_less (zig_zag_pos sz j) (zig_zag_pos sz k)"
proof (induction k)
  case 0
  then show ?case by simp
next
  case (Suc k)
  have s: "zz_less (zig_zag_pos sz k) (zig_zag_pos sz (Suc k))"
    unfolding pos_Suc by (rule step_increases)
  show ?case
  proof (cases "j = k")
    case True
    then show ?thesis using s by simp
  next
    case False
    then have "j < k" using Suc.prems by simp
    from zz_less_trans[OF Suc.IH[OF this] s] show ?thesis .
  qed
qed

lemma pos_inj: "zig_zag_pos sz j = zig_zag_pos sz k \<Longrightarrow> j = k"
proof (rule ccontr)
  assume eq: "zig_zag_pos sz j = zig_zag_pos sz k" and "j \<noteq> k"
  then consider "j < k" | "k < j" by linarith
  then show False
  proof cases
    case 1
    from pos_mono[OF this, of sz] eq show False by (simp add: zz_less_irrefl)
  next
    case 2
    from pos_mono[OF this, of sz] eq show False by (simp add: zz_less_irrefl)
  qed
qed

lemma pos_reach:
  assumes "in_range sz c"
  shows "\<exists>k. zig_zag_pos sz k = c"
proof -
  have wf: "wf (inv_image (less_than <*lex*> less_than) diag_key)"
    by (intro wf_inv_image wf_lex_prod wf_less_than)
  show ?thesis using assms
proof (induction c rule: wf_induct_rule[OF wf])
  case (1 c)
  show ?case
  proof (cases "c = (0, 0)")
    case True
    then show ?thesis by (intro exI[of _ 0]) (simp add: zig_zag_pos_def)
  next
    case False
    from step_predecessor[OF 1(2) False] obtain p where
      p: "in_range sz p" "zig_zag_step sz p = c" by blast
    have "zz_less p c" using step_increases[of p sz] p(2) by simp
    then have "(p, c) \<in> inv_image (less_than <*lex*> less_than) diag_key"
      by (simp add: inv_image_def)
    from 1(1)[OF this p(1)] obtain k where "zig_zag_pos sz k = p" by blast
    then have "zig_zag_pos sz (Suc k) = c" using p(2) by (simp add: pos_Suc)
    then show ?thesis by blast
  qed
qed
qed

lemma zig_zag_count:
  assumes "1 \<le> sz"
  shows "(\<forall>k < sz * sz. in_range sz (zig_zag_pos sz k)) \<and>
    (\<forall>c. in_range sz c \<longrightarrow> (\<exists>k < sz * sz. zig_zag_pos sz k = c))"
proof -
  let ?last = "(sz - 1, sz - 1)"
  have last_in: "in_range sz ?last" using assms by (simp add: in_range_def)
  from pos_reach[OF last_in] obtain K where K: "zig_zag_pos sz K = ?last" by blast
  have before: "in_range sz (zig_zag_pos sz k)" if "k \<le> K" for k
    using that
  proof (induction k)
    case 0
    then show ?case using assms by (simp add: zig_zag_pos_def in_range_def)
  next
    case (Suc k)
    then have "in_range sz (zig_zag_pos sz k)" by simp
    moreover have "zig_zag_pos sz k \<noteq> ?last"
      using pos_inj[of sz k K] K Suc.prems by auto
    ultimately show ?case unfolding pos_Suc by (rule step_in_range)
  qed
  have after: "k \<le> K" if "in_range sz (zig_zag_pos sz k)" for k
  proof (rule ccontr)
    assume "\<not> k \<le> K"
    then have "K < k" by simp
    from pos_mono[OF this, of sz] have gt: "zz_less ?last (zig_zag_pos sz k)" using K by simp
    have "zig_zag_pos sz k \<noteq> ?last" using gt zz_less_irrefl[of ?last] by auto
    from last_is_greatest[OF that this] gt show False
      using zz_less_trans zz_less_irrefl by blast
  qed
  have img: "zig_zag_pos sz ` {..K} = {..<sz} \<times> {..<sz}"
  proof (intro set_eqI iffI)
    fix c assume "c \<in> zig_zag_pos sz ` {..K}"
    then obtain k where "k \<le> K" "c = zig_zag_pos sz k" by auto
    then have "fst c < sz \<and> snd c < sz"
      using before[of k] by (simp add: in_range_def)
    then show "c \<in> {..<sz} \<times> {..<sz}"
      by (simp add: mem_Times_iff)
  next
    fix c :: "nat \<times> nat" assume "c \<in> {..<sz} \<times> {..<sz}"
    then have c: "in_range sz c" by (auto simp: in_range_def)
    from pos_reach[OF c] obtain k where k: "zig_zag_pos sz k = c" by blast
    then have "k \<le> K" using after c by simp
    then show "c \<in> zig_zag_pos sz ` {..K}" using k by auto
  qed
  have "inj_on (zig_zag_pos sz) {..K}" by (rule inj_onI) (rule pos_inj)
  then have "card (zig_zag_pos sz ` {..K}) = Suc K" by (simp add: card_image)
  then have K1: "Suc K = sz * sz" unfolding img by simp
  show ?thesis
  proof (intro conjI allI impI)
    fix k assume "k < sz * sz"
    then show "in_range sz (zig_zag_pos sz k)" using before K1 by simp
  next
    fix c assume c: "in_range sz c"
    from pos_reach[OF c] obtain k where k: "zig_zag_pos sz k = c" by blast
    then have "k \<le> K" using after c by simp
    then have "k < sz * sz" using K1 by linarith
    then show "\<exists>k < sz * sz. zig_zag_pos sz k = c" using k by blast
  qed
qed


lemma square_nth: "square sz data \<Longrightarrow> y < sz \<Longrightarrow> length (data ! y) = sz"
  by (auto simp: square_def list_all_length)

lemma square_shape: "square sz data \<Longrightarrow> 1 \<le> sz \<Longrightarrow> shape data = (sz, sz)"
  by (cases data) (auto simp: square_def shape_def)

lemma zig_zag_read_ok:
  assumes "square sz data" "\<forall>j<n. in_range sz ((zig_zag_step sz ^^ j) p)"
  shows "zig_zag_read data n p = Inr (map (\<lambda>j. cell data ((zig_zag_step sz ^^ j) p)) [0..<n])"
  using assms(2)
proof (induction n arbitrary: p)
  case 0
  then show ?case by simp
next
  case (Suc n)
  obtain x y where p: "p = (x, y)" by (cases p)
  have "in_range sz p" using Suc.prems by (auto dest: spec[of _ 0])
  then have xy: "x < sz" "y < sz" unfolding p in_range_def by simp_all
  have len: "length data = sz" "length (data ! y) = sz"
    using assms(1) square_nth[OF assms(1) xy(2)] by (simp_all add: square_def)
  have "\<forall>j<n. in_range sz ((zig_zag_step sz ^^ j) (zig_zag_step sz p))"
    using Suc.prems by (auto simp: funpow_swap1 dest: spec[of _ "Suc _"])
  from Suc.IH[OF this]
  have rec: "zig_zag_read data n (zig_zag_step sz p) =
      Inr (map (\<lambda>j. cell data ((zig_zag_step sz ^^ Suc j) p)) [0..<n])"
    by (simp add: funpow_swap1)
  have "map (\<lambda>j. cell data ((zig_zag_step sz ^^ j) p)) [0..<Suc n] =
      cell data p # map (\<lambda>j. cell data ((zig_zag_step sz ^^ Suc j) p)) [0..<n]"
    by (subst map_upt_Suc) simp
  then show ?case
    using rec xy len unfolding p by (simp add: shape_def cell_def del: upt_Suc funpow.simps)
qed

lemma square_update:
  assumes "square sz ret" "y < sz"
  shows "square sz (ret[y := (ret ! y)[x := v]])"
  using assms by (auto simp: square_def list_all_length nth_list_update)

lemma cell_update:
  assumes "square sz ret" "in_range sz (x, y)" "in_range sz c"
  shows "cell (ret[y := (ret ! y)[x := v]]) c = (if c = (x, y) then v else cell ret c)"
proof -
  obtain a b where c: "c = (a, b)" by (cases c)
  have "length ret = sz" "length (ret ! y) = sz"
    using assms(1,2) square_nth[OF assms(1)] by (auto simp: square_def in_range_def)
  then show ?thesis using assms(2,3) unfolding c
    by (auto simp: cell_def in_range_def nth_list_update)
qed

lemma zig_zag_write_agree:
  assumes "square sz M"
  shows "square sz ret \<Longrightarrow>
    \<forall>j<length vs. in_range sz ((zig_zag_step sz ^^ j) p) \<and>
       vs ! j = cell M ((zig_zag_step sz ^^ j) p) \<Longrightarrow>
    \<exists>ret'. zig_zag_write ret vs sz p = Inr ret' \<and> square sz ret' \<and>
      (\<forall>c. in_range sz c \<longrightarrow>
         cell ret c = cell M c \<or> (\<exists>j<length vs. (zig_zag_step sz ^^ j) p = c) \<longrightarrow>
         cell ret' c = cell M c)"
proof (induction vs arbitrary: ret p)
  case Nil
  then show ?case by simp
next
  case (Cons v vs)
  obtain x y where p: "p = (x, y)" by (cases p)
  have p0: "in_range sz p" "v = cell M p"
    using Cons.prems(2) by (auto dest: spec[of _ 0])
  then have xy: "x < sz" "y < sz" unfolding p in_range_def by simp_all
  have len: "length ret = sz" "length (ret ! y) = sz"
    using Cons.prems(1) square_nth[OF Cons.prems(1) xy(2)] by (simp_all add: square_def)
  let ?ret = "ret[y := (ret ! y)[x := v]]"
  have sq: "square sz ?ret" by (rule square_update[OF Cons.prems(1) xy(2)])
  have nxt: "\<forall>j<length vs. in_range sz ((zig_zag_step sz ^^ j) (zig_zag_step sz p)) \<and>
       vs ! j = cell M ((zig_zag_step sz ^^ j) (zig_zag_step sz p))"
  proof (intro allI impI)
    fix j assume "j < length vs"
    then have "Suc j < length (v # vs)" by simp
    from Cons.prems(2)[rule_format, OF this]
    show "in_range sz ((zig_zag_step sz ^^ j) (zig_zag_step sz p)) \<and>
       vs ! j = cell M ((zig_zag_step sz ^^ j) (zig_zag_step sz p))"
      by (simp add: funpow_swap1)
  qed
  from Cons.IH[OF sq nxt] obtain ret' where
    r: "zig_zag_write ?ret vs sz (zig_zag_step sz p) = Inr ret'" "square sz ret'"
      "\<forall>c. in_range sz c \<longrightarrow>
         cell ?ret c = cell M c \<or> (\<exists>j<length vs. (zig_zag_step sz ^^ j) (zig_zag_step sz p) = c) \<longrightarrow>
         cell ret' c = cell M c"
    by blast
  have w: "zig_zag_write ret (v # vs) sz p = Inr ret'"
    using r(1) xy len unfolding p by simp
  have "cell ret' c = cell M c"
    if c: "in_range sz c"
      and h: "cell ret c = cell M c \<or> (\<exists>j<length (v # vs). (zig_zag_step sz ^^ j) p = c)" for c
  proof -
    have upd: "cell ?ret c = (if c = p then v else cell ret c)"
      using cell_update[OF Cons.prems(1) p0(1)[unfolded p] c] unfolding p by simp
    from h consider "cell ret c = cell M c" | "c = p"
      | j where "j < length vs" "(zig_zag_step sz ^^ Suc j) p = c"
    proof (elim disjE exE conjE)
      assume "cell ret c = cell M c"
      then show ?thesis using that(1) by blast
    next
      fix j assume j: "j < length (v # vs)" "(zig_zag_step sz ^^ j) p = c"
      show ?thesis
      proof (cases j)
        case 0
        then show ?thesis using j that(2) by simp
      next
        case (Suc j')
        then show ?thesis using j that(3)[of j'] by simp
      qed
    qed
    then show ?thesis
    proof cases
      case 1
      then have "cell ?ret c = cell M c" using upd p0(2) by auto
      then show ?thesis using r(3) c by blast
    next
      case 2
      then have "cell ?ret c = cell M c" using upd p0(2) by auto
      then show ?thesis using r(3) c by blast
    next
      case (3 j)
      then have "(zig_zag_step sz ^^ j) (zig_zag_step sz p) = c" by (simp add: funpow_swap1)
      then show ?thesis using r(3) c 3(1) by blast
    qed
  qed
  then show ?case using w r(2) by blast
qed

lemma square_eqI:
  assumes "square sz A" "square sz B" "\<forall>c. in_range sz c \<longrightarrow> cell A c = cell B c"
  shows "A = B"
proof (rule nth_equalityI)
  show "length A = length B" using assms(1,2) by (simp add: square_def)
next
  fix y assume "y < length A"
  then have y: "y < sz" using assms(1) by (simp add: square_def)
  show "A ! y = B ! y"
  proof (rule nth_equalityI)
    show "length (A ! y) = length (B ! y)"
      using square_nth[OF assms(1) y] square_nth[OF assms(2) y] by simp
  next
    fix x assume "x < length (A ! y)"
    then have "x < sz" using square_nth[OF assms(1) y] by simp
    then have "in_range sz (x, y)" using y by (simp add: in_range_def)
    from assms(3)[rule_format, OF this] show "A ! y ! x = B ! y ! x" by (simp add: cell_def)
  qed
qed

lemma square_np_empty: "square sz (np_empty garbage sz)"
  by (simp add: square_def np_empty_def list_all_length)

lemma iter_zig_zag_ok:
  assumes "1 \<le> sz" "square sz data"
  shows "iter_zig_zag data = Inr (map (\<lambda>k. cell data (zig_zag_pos sz k)) [0..<sz * sz])"
proof -
  have "\<forall>j<sz * sz. in_range sz ((zig_zag_step sz ^^ j) (0, 0))"
    using zig_zag_count[OF assms(1)] by (simp add: zig_zag_pos_def)
  from zig_zag_read_ok[OF assms(2) this] show ?thesis
    using assms(1) square_shape[OF assms(2,1)]
    by (simp add: iter_zig_zag_def zig_zag_pos_def)
qed

lemma inverse_iter_zig_zag_ok:
  assumes "1 \<le> sz" "square sz M" "length vs \<le> sz * sz"
    "\<forall>k<sz * sz. (vs @ replicate (sz * sz - length vs) fill) ! k = cell M (zig_zag_pos sz k)"
  shows "inverse_iter_zig_zag garbage vs (Some sz) fill = Inr M"
proof -
  let ?vs = "vs @ replicate (sz * sz - length vs) fill"
  have l: "length ?vs = sz * sz" using assms(3) by simp
  have "\<forall>j<length ?vs. in_range sz ((zig_zag_step sz ^^ j) (0, 0)) \<and>
       ?vs ! j = cell M ((zig_zag_step sz ^^ j) (0, 0))"
    using zig_zag_count[OF assms(1)] assms(4) unfolding l by (simp add: zig_zag_pos_def)
  from zig_zag_write_agree[OF assms(2) square_np_empty this, of garbage]
  obtain ret' where r: "zig_zag_write (np_empty garbage sz) ?vs sz (0, 0) = Inr ret'"
    "square sz ret'"
    "\<forall>c. in_range sz c \<longrightarrow>
       cell (np_empty garbage sz) c = cell M c \<or>
         (\<exists>j<length ?vs. (zig_zag_step sz ^^ j) (0, 0) = c) \<longrightarrow>
       cell ret' c = cell M c"
    by blast
  have "\<forall>c. in_range sz c \<longrightarrow> cell ret' c = cell M c"
  proof (intro allI impI)
    fix c assume c: "in_range sz c"
    then obtain k where "k < sz * sz" "zig_zag_pos sz k = c"
      using zig_zag_count[OF assms(1)] by blast
    then have "\<exists>j<length ?vs. (zig_zag_step sz ^^ j) (0, 0) = c"
      unfolding l by (auto simp: zig_zag_pos_def)
    then show "cell ret' c = cell M c" using r(3) c by blast
  qed
  from square_eqI[OF r(2) assms(2) this] have "ret' = M" .
  then show ?thesis using r(1) by (simp add: inverse_iter_zig_zag_def Let_def)
qed

text \<open>
  Claim C3. For every \<open>N \<ge> 1\<close> and every \<open>N \<times> N\<close> integer matrix, \<open>iter_zig_zag\<close> yields
  \<open>N\<^sup>2\<close> items, and \<open>inverse_iter_zig_zag\<close> applied to them with size \<open>N\<close> rebuilds the matrix,
  whatever the fill value and whatever \<open>np.empty\<close> left in the new array.
\<close>

theorem zig_zag_roundtrip:
  assumes "1 \<le> sz" "square sz data"
  shows "\<exists>items. iter_zig_zag data = Inr items \<and> length items = sz * sz \<and>
    inverse_iter_zig_zag garbage items (Some sz) fill = Inr data"
proof -
  let ?items = "map (\<lambda>k. cell data (zig_zag_pos sz k)) [0..<sz * sz]"
  have 1: "iter_zig_zag data = Inr ?items" by (rule iter_zig_zag_ok[OF assms])
  have 2: "inverse_iter_zig_zag garbage ?items (Some sz) fill = Inr data"
    by (rule inverse_iter_zig_zag_ok[OF assms]) simp_all
  show ?thesis using 1 2 by simp
qed

theorem zig_zag_roundtrip_witness:
  "iter_zig_zag [[1, 2, 3], [4, 5, 6], [7, 8, 9]] = Inr [1, 2, 4, 7, 5, 3, 6, 8, 9] \<and>
   inverse_iter_zig_zag (\<lambda>r c. 77) [1, 2, 4, 7, 5, 3, 6, 8, 9] (Some 3) 0
     = Inr [[1, 2, 3], [4, 5, 6], [7, 8, 9]]"
proof -
  have sq: "square 3 [[1, 2, 3], [4, 5, 6], [7, 8, 9]]" by (simp add: square_def)
  have it: "iter_zig_zag [[1, 2, 3], [4, 5, 6], [7, 8, 9]] = Inr [1, 2, 4, 7, 5, 3, 6, 8, 9]"
    by code_simp
  have "(1::nat) \<le> 3" by simp
  from zig_zag_roundtrip[OF this sq, of "\<lambda>r c. 77" 0] it show ?thesis by auto
qed

section \<open>The symbols of a layer\<close>

lemma traverse_Inr: "\<forall>a \<in> set as. f a = Inr (g a) \<Longrightarrow> traverse f as = Inr (map g as)"
  by (induction as) auto

lemma count_list_concat: "count_list (concat xss) x = sum_list (map (\<lambda>xs. count_list xs x) xss)"
  by (induction xss) auto

lemma count_list_notin: "x \<notin> set xs \<Longrightarrow> count_list xs x = 0"
  by (induction xs) auto

lemma dc_coefficient_ok:
  assumes "square sz b" "1 \<le> sz"
  shows "dc_coefficient b = Inr (cell b (0, 0))"
proof -
  obtain row rows where b: "b = row # rows" using assms by (cases b) (auto simp: square_def)
  then have "length row = sz" using assms(1) by (simp add: square_def)
  then obtain v vs where "row = v # vs" using assms(2) by (cases row) auto
  then show ?thesis using b by (simp add: dc_coefficient_def cell_def)
qed

lemma block_run_length_ok:
  assumes "square sz b" "2 \<le> sz"
  shows "\<exists>ret. block_run_length b = Inr (ret @ [EOB]) \<and> EOB \<notin> set ret \<and>
    flat ret = without_trailing_zeros (map (\<lambda>k. cell b (zig_zag_pos sz k)) [1..<sz * sz]) \<and>
    (\<forall>p \<in> set ret. valid_symbol ((\<lambda>k. cell b (zig_zag_pos sz k)) ` {1..<sz * sz}) p)"
proof -
  let ?items = "map (\<lambda>k. cell b (zig_zag_pos sz k)) [0..<sz * sz]"
  let ?ac = "map (\<lambda>k. cell b (zig_zag_pos sz k)) [1..<sz * sz]"
  have sz1: "1 \<le> sz" using assms(2) by simp
  have it: "iter_zig_zag b = Inr ?items" by (rule iter_zig_zag_ok[OF sz1 assms(1)])
  have "2 * 2 \<le> sz * sz" using assms(2) by (intro mult_le_mono) simp_all
  then have big: "1 < sz * sz" by simp
  have tl: "tl ?items = ?ac"
    using sz1 by (simp add: map_tl[symmetric] tl_upt del: upt_Suc)
  have ne: "?ac \<noteq> []" using big sz1 by simp
  from encode_run_length_result[OF ne] show ?thesis
    using it tl by (auto simp: block_run_length_def)
qed

lemma get_run_length_ac_count:
  assumes "\<forall>b \<in> set layer. square sz b" "2 \<le> sz"
  shows "\<exists>seq. get_run_length_ac layer = Inr seq \<and> count_list seq EOB = length layer"
proof -
  define g where "g b = projr (block_run_length b)" for b
  have each: "block_run_length b = Inr (g b) \<and> count_list (g b) EOB = 1" if "b \<in> set layer" for b
  proof -
    from block_run_length_ok[OF assms(1)[rule_format, OF that] assms(2)]
    obtain ret where "block_run_length b = Inr (ret @ [EOB])" "EOB \<notin> set ret" by blast
    then show ?thesis by (simp add: g_def count_list_notin)
  qed
  then have "traverse block_run_length layer = Inr (map g layer)"
    by (intro traverse_Inr) simp
  moreover have "sum_list (map (\<lambda>xs. count_list xs EOB) (map g layer)) = length layer"
    using each by (induction layer) auto
  ultimately show ?thesis
    by (simp add: get_run_length_ac_def count_list_concat)
qed

text \<open>
  Claim C8. For every non-empty vector of AC coefficients the list returned by
  \<open>encode_run_length\<close> ends with \<open>EOB\<close> and has no other \<open>EOB\<close>. So in the flat list of symbols
  that the encoder builds for a layer of 8 by 8 blocks, the number of \<open>EOB\<close> symbols is the
  number of blocks.
\<close>

theorem eob_invariant:
  "(a \<noteq> [] \<longrightarrow>
      (\<exists>symbols. encode_run_length a = Inr (symbols @ [EOB]) \<and>
         count_list (symbols @ [EOB]) EOB = 1)) \<and>
   ((\<forall>b \<in> set layer. square 8 b) \<longrightarrow>
      (\<exists>seq. get_run_length_ac layer = Inr seq \<and> count_list seq EOB = length layer))"
proof (intro conjI impI)
  assume "a \<noteq> []"
  from encode_run_length_result[OF this]
  show "\<exists>symbols. encode_run_length a = Inr (symbols @ [EOB]) \<and>
         count_list (symbols @ [EOB]) EOB = 1"
    by (auto simp: count_list_notin)
next
  assume "\<forall>b \<in> set layer. square 8 b"
  then show "\<exists>seq. get_run_length_ac layer = Inr seq \<and> count_list seq EOB = length layer"
    by (rule get_run_length_ac_count) simp
qed

theorem eob_invariant_witness:
  "(\<exists>symbols. encode_run_length [0, 5] = Inr (symbols @ [EOB]) \<and>
      count_list (symbols @ [EOB]) EOB = 1) \<and>
   (\<exists>seq. get_run_length_ac [replicate 8 (replicate 8 0), replicate 8 (replicate 8 1)] = Inr seq \<and>
      count_list seq EOB = 2)"
proof -
  have "\<forall>b \<in> set [replicate 8 (replicate 8 0), replicate 8 (replicate 8 (1::int))]. square 8 b"
    by (simp add: square_def list_all_length)
  then show ?thesis
    using eob_invariant[of "[0, 5]" "[replicate 8 (replicate 8 0), replicate 8 (replicate 8 1)]"]
    by (auto simp: eval_nat_numeral)
qed

section \<open>The checks of the decoder\<close>

lemma zig_zag_write_ok:
  "square sz ret \<Longrightarrow> \<forall>j<length vs. in_range sz ((zig_zag_step sz ^^ j) p) \<Longrightarrow>
    \<exists>ret'. zig_zag_write ret vs sz p = Inr ret' \<and> square sz ret'"
proof (induction vs arbitrary: ret p)
  case Nil
  then show ?case by simp
next
  case (Cons v vs)
  obtain x y where p: "p = (x, y)" by (cases p)
  have "in_range sz p" using Cons.prems(2) by (auto dest: spec[of _ 0])
  then have xy: "x < sz" "y < sz" unfolding p in_range_def by simp_all
  have len: "length ret = sz" "length (ret ! y) = sz"
    using Cons.prems(1) square_nth[OF Cons.prems(1) xy(2)] by (simp_all add: square_def)
  have sq: "square sz (ret[y := (ret ! y)[x := v]])"
    by (rule square_update[OF Cons.prems(1) xy(2)])
  have nxt: "\<forall>j<length vs. in_range sz ((zig_zag_step sz ^^ j) (zig_zag_step sz p))"
  proof (intro allI impI)
    fix j assume "j < length vs"
    then have "Suc j < length (v # vs)" by simp
    from Cons.prems(2)[rule_format, OF this]
    show "in_range sz ((zig_zag_step sz ^^ j) (zig_zag_step sz p))"
      by (simp add: funpow_swap1)
  qed
  from Cons.IH[OF sq nxt] show ?case using xy len unfolding p by simp
qed

lemma inverse_iter_zig_zag_fits:
  assumes "1 \<le> sz" "length vs \<le> sz * sz"
  shows "\<exists>ret. inverse_iter_zig_zag garbage vs (Some sz) fill = Inr ret \<and> square sz ret"
proof -
  let ?vs = "vs @ replicate (sz * sz - length vs) fill"
  have l: "length ?vs = sz * sz" using assms(2) by simp
  have "\<forall>j<length ?vs. in_range sz ((zig_zag_step sz ^^ j) (0, 0))"
    using zig_zag_count[OF assms(1)] unfolding l by (simp add: zig_zag_pos_def)
  from zig_zag_write_ok[OF square_np_empty this, of garbage] show ?thesis
    by (simp add: inverse_iter_zig_zag_def Let_def)
qed

lemma traverse_all:
  assumes "\<forall>a \<in> set as. \<exists>b. f a = Inr b \<and> P b"
  shows "\<exists>bs. traverse f as = Inr bs \<and> length bs = length as \<and> list_all P bs"
  using assms by (induction as) auto

lemma shaped_fits:
  assumes "length dcs = length acs" "\<forall>ac \<in> set acs. length ac \<le> 63"
  shows "\<exists>blocks. shaped garbage dcs acs = Inr blocks \<and> length blocks = length dcs \<and>
    list_all (square 8) blocks"
proof -
  have "\<forall>a \<in> set (zip dcs acs).
      \<exists>b. (\<lambda>(dc, ac). inverse_iter_zig_zag garbage (dc # ac) (Some 8) 0) a = Inr b \<and> square 8 b"
  proof
    fix a assume a: "a \<in> set (zip dcs acs)"
    obtain dc ac where da: "a = (dc, ac)" by (cases a)
    then have "ac \<in> set acs" using a by (auto dest: set_zip_rightD)
    then have "length (dc # ac) \<le> 8 * 8" using assms(2) by auto
    from inverse_iter_zig_zag_fits[OF _ this, of garbage 0]
    show "\<exists>b. (\<lambda>(dc, ac). inverse_iter_zig_zag garbage (dc # ac) (Some 8) 0) a = Inr b \<and> square 8 b"
      using da by simp
  qed
  from traverse_all[OF this] show ?thesis using assms(1) by (auto simp: shaped_def)
qed

text \<open>
  Claim C9, amended. Once the four bit strings have been decoded, \<open>Decoder.decode\<close> raises an
  error, with no partial result, whenever the number of DC values of a layer differs from the
  number of \<open>EOB\<close>-terminated AC groups of that layer or the chrominance DC count or AC group
  count is odd (a \<open>ValueError\<close> when a count is odd or the luminance counts differ). When the
  three checks pass and every AC group decodes to at most 63 coefficients, it returns the y, cb
  and cr sequences of 8 by 8 blocks, cb and cr being the two halves of the chrominance blocks.
\<close>

theorem decode_shape_checks:
  assumes "get_dc (dc_luminance data) LUMINANCE = Inr dc_l"
    "get_dc (dc_chrominance data) CHROMINANCE = Inr dc_c"
    "get_ac (ac_luminance data) LUMINANCE = Inr ac_l"
    "get_ac (ac_chrominance data) CHROMINANCE = Inr ac_c"
  shows "(length dc_l \<noteq> length ac_l \<or> length dc_c \<noteq> length ac_c \<or>
      odd (length dc_c) \<or> odd (length ac_c) \<longrightarrow> (\<exists>e. decode garbage data = Inl e)) \<and>
    (odd (length dc_c) \<or> odd (length ac_c) \<or> length dc_l \<noteq> length ac_l
       \<longrightarrow> decode garbage data = Inl ValueError) \<and>
    (length dc_l = length ac_l \<and> length dc_c = length ac_c \<and>
      even (length dc_c) \<and> even (length ac_c) \<and>
      (\<forall>ac \<in> set (ac_l @ ac_c). length ac \<le> 63) \<longrightarrow>
      (\<exists>y cb cr. decode garbage data = Inr \<lparr>Y = y, Cb = cb, Cr = cr\<rparr> \<and>
         length y = length dc_l \<and> length cb = length dc_c div 2 \<and> length cr = length dc_c div 2 \<and>
         list_all (square 8) (y @ cb @ cr)))"
proof (intro conjI impI)
  assume "odd (length dc_c) \<or> odd (length ac_c) \<or> length dc_l \<noteq> length ac_l"
  then show "decode garbage data = Inl ValueError"
    using assms by (auto simp: decode_def odd_iff_mod_2_eq_one)
next
  assume "length dc_l \<noteq> length ac_l \<or> length dc_c \<noteq> length ac_c \<or>
      odd (length dc_c) \<or> odd (length ac_c)"
  then show "\<exists>e. decode garbage data = Inl e"
    using assms by (auto simp: decode_def odd_iff_mod_2_eq_one split: sum.splits)
next
  assume a: "length dc_l = length ac_l \<and> length dc_c = length ac_c \<and>
      even (length dc_c) \<and> even (length ac_c) \<and>
      (\<forall>ac \<in> set (ac_l @ ac_c). length ac \<le> 63)"
  then have "\<forall>ac \<in> set ac_l. length ac \<le> 63" "\<forall>ac \<in> set ac_c. length ac \<le> 63" by auto
  from shaped_fits[OF _ this(1), of dc_l garbage] shaped_fits[OF _ this(2), of dc_c garbage]
  obtain sl sc where s: "shaped garbage dc_l ac_l = Inr sl" "length sl = length dc_l"
    "list_all (square 8) sl" "shaped garbage dc_c ac_c = Inr sc" "length sc = length dc_c"
    "list_all (square 8) sc"
    using a by auto
  have ev: "length sc mod 2 = 0" using a s(5) by presburger
  have split: "np_split2 sc = Inr (take (length sc div 2) sc, drop (length sc div 2) sc)"
    using ev by (simp add: np_split2_def)
  have d: "decode garbage data =
      Inr \<lparr>Y = sl, Cb = take (length sc div 2) sc, Cr = drop (length sc div 2) sc\<rparr>"
    using assms a s(1,4) split ev s(5) by (simp add: decode_def)
  have "list_all (square 8) (take (length sc div 2) sc @ drop (length sc div 2) sc)"
    using s(6) by simp
  then have "list_all (square 8) (sl @ take (length sc div 2) sc @ drop (length sc div 2) sc)"
    using s(3) by (simp only: list_all_append)
  moreover have "length (take (length sc div 2) sc) = length dc_c div 2"
    "length (drop (length sc div 2) sc) = length dc_c div 2"
    using s(5) ev by auto
  ultimately show "\<exists>y cb cr. decode garbage data = Inr \<lparr>Y = y, Cb = cb, Cr = cr\<rparr> \<and>
         length y = length dc_l \<and> length cb = length dc_c div 2 \<and> length cr = length dc_c div 2 \<and>
         list_all (square 8) (y @ cb @ cr)"
    using d s(2) by blast
qed


lemma decoded_dc_luminance_1: "get_dc ''00'' LUMINANCE = Inr [0]"
  by code_simp

lemma decoded_dc_luminance_2: "get_dc ''0000'' LUMINANCE = Inr [0, 0]"
  by code_simp

lemma decoded_dc_chrominance_2: "get_dc ''0000'' CHROMINANCE = Inr [0, 0]"
  by code_simp

lemma decoded_ac_luminance_1: "get_ac ''1010'' LUMINANCE = Inr [[]]"
  by code_simp

lemma decoded_ac_luminance_long:
  "get_ac ''111111110011111111100111111111001111111110011010'' LUMINANCE = Inr [replicate 64 0]"
  by code_simp

lemma decoded_ac_chrominance_2: "get_ac ''0000'' CHROMINANCE = Inr [[], []]"
  by code_simp

lemma shaped_too_long: "shaped zeroed [0] [replicate 64 0] = Inl IndexError"
  by code_simp

theorem decode_shape_checks_witness:
  "decode zeroed
     \<lparr>dc_luminance = ''0000'', dc_chrominance = ''0000'',
      ac_luminance = ''1010'', ac_chrominance = ''0000''\<rparr> = Inl ValueError \<and>
   (\<exists>y cb cr. decode zeroed
     \<lparr>dc_luminance = ''00'', dc_chrominance = ''0000'',
      ac_luminance = ''1010'', ac_chrominance = ''0000''\<rparr> = Inr \<lparr>Y = y, Cb = cb, Cr = cr\<rparr> \<and>
      length y = 1 \<and> length cb = 1 \<and> length cr = 1 \<and> list_all (square 8) (y @ cb @ cr))"
  using decode_shape_checks[of
      "\<lparr>dc_luminance = ''0000'', dc_chrominance = ''0000'',
        ac_luminance = ''1010'', ac_chrominance = ''0000''\<rparr>"
      "[0, 0]" "[0, 0]" "[[]]" "[[], []]" zeroed]
    decode_shape_checks[of
      "\<lparr>dc_luminance = ''00'', dc_chrominance = ''0000'',
        ac_luminance = ''1010'', ac_chrominance = ''0000''\<rparr>"
      "[0]" "[0, 0]" "[[]]" "[[], []]" zeroed]
  by (simp add: decoded_dc_luminance_1 decoded_dc_luminance_2 decoded_dc_chrominance_2
      decoded_ac_luminance_1 decoded_ac_chrominance_2)

text \<open>
  Claim C9 says that \<open>Decoder.decode\<close> returns the block sequences when the three checks pass.
  With one luminance DC value and one luminance AC group of four \<open>ZRL\<close> and \<open>EOB\<close>, two
  chrominance DC values and two chrominance AC groups, the counts agree and the chrominance
  counts are even, but the luminance group has 64 coefficients and \<open>inverse_iter_zig_zag\<close>
  raises \<open>IndexError\<close> on the 65 values of the block.
\<close>

theorem decode_shape_checks_counterexample:
  "get_dc ''00'' LUMINANCE = Inr [0] \<and>
   get_ac ''111111110011111111100111111111001111111110011010'' LUMINANCE = Inr [replicate 64 0] \<and>
   get_dc ''0000'' CHROMINANCE = Inr [0, 0] \<and>
   get_ac ''0000'' CHROMINANCE = Inr [[], []] \<and>
   decode zeroed
     \<lparr>dc_luminance = ''00'', dc_chrominance = ''0000'',
      ac_luminance = ''111111110011111111100111111111001111111110011010'',
      ac_chrominance = ''0000''\<rparr> = Inl IndexError"
proof -
  have "decode zeroed
     \<lparr>dc_luminance = ''00'', dc_chrominance = ''0000'',
      ac_luminance = ''111111110011111111100111111111001111111110011010'',
      ac_chrominance = ''0000''\<rparr> = Inl IndexError"
    unfolding decode_def
    by (simp add: decoded_dc_luminance_1 decoded_dc_chrominance_2 decoded_ac_luminance_long
        decoded_ac_chrominance_2 shaped_too_long)
  then show ?thesis
    using decoded_dc_luminance_1 decoded_dc_chrominance_2 decoded_ac_luminance_long
      decoded_ac_chrominance_2 by simp
qed

section \<open>Encoding and decoding a whole image\<close>

lemma accumulate_differences:
  "accumulate_from a (map (\<lambda>i. (a # ys) ! Suc i - (a # ys) ! i) [0..<length ys]) = ys"
proof (induction ys arbitrary: a)
  case Nil
  then show ?case by simp
next
  case (Cons y ys)
  have "map (\<lambda>i. (a # y # ys) ! Suc i - (a # y # ys) ! i) [0..<length (y # ys)] =
      (y - a) # map (\<lambda>i. (y # ys) ! Suc i - (y # ys) ! i) [0..<length ys]"
    by (simp add: map_upt_Suc del: upt_Suc)
  then show ?case using Cons.IH[of y] by simp
qed

lemma differential_roundtrip: "decode_differential (encode_differential Unbounded seq) = seq"
proof (cases seq)
  case Nil
  then show ?thesis by (simp add: decode_differential_def encode_differential_def)
next
  case (Cons a ys)
  have "encode_differential Unbounded (a # ys) =
      a # map (\<lambda>i. (a # ys) ! Suc i - (a # ys) ! i) [0..<length ys]"
    by (simp add: encode_differential_def map_upt_Suc del: upt_Suc)
  then show ?thesis using Cons accumulate_differences[of a ys]
    by (simp add: decode_differential_def)
qed

lemma encode_differential_no_wrap:
  assumes "\<forall>d \<in> set (encode_differential Unbounded seq). fits dt d"
  shows "encode_differential dt seq = encode_differential Unbounded seq"
proof -
  have "wrap dt (seq ! idx - seq ! (idx - 1)) = seq ! idx - seq ! (idx - 1)"
    if "idx < length seq" "idx \<noteq> 0" for idx
  proof -
    have "encode_differential Unbounded seq ! idx = seq ! idx - seq ! (idx - 1)"
      using that by (simp add: encode_differential_def)
    moreover have "encode_differential Unbounded seq ! idx \<in> set (encode_differential Unbounded seq)"
      using that(1) by (intro nth_mem) (simp add: encode_differential_def)
    ultimately show ?thesis using assms by (auto simp: fits_def)
  qed
  then show ?thesis by (simp add: encode_differential_def)
qed

lemma dc_values_map: "dc_values (map DCValue xs) = xs"
  by (induction xs) (simp_all add: dc_values_def)

lemma ac_values_map: "ac_values (map ACValue ps) = ps"
  by (induction ps) (simp_all add: ac_values_def)

lemma encode_all_ok:
  "\<forall>v \<in> set vs. \<exists>c. encode_huffman v layer_type = Inr c \<Longrightarrow>
     \<exists>code. encode_all vs layer_type = Inr code"
proof (induction vs)
  case Nil
  then show ?case by simp
next
  case (Cons v vs)
  then obtain c code where "encode_huffman v layer_type = Inr c" "encode_all vs layer_type = Inr code"
    by auto
  then show ?case by simp
qed

lemma decode_huffman_encode_all:
  assumes "encode_all vs layer_type = Inr code" "\<forall>v \<in> set vs. mode_of v = m"
  shows "decode_huffman code m layer_type = Inr vs"
  using decode_from_stream[OF assms(1) _ assms(2), of 0 code] by (simp add: decode_huffman_def)

lemma isplit_groups:
  assumes "\<forall>r \<in> set rs. splitter \<notin> set r"
  shows "isplit (concat (map (\<lambda>r. r @ [splitter]) rs)) splitter = map (\<lambda>r. r @ [splitter]) rs"
  using assms
proof (induction rs)
  case Nil
  then show ?case by (simp add: isplit_def)
next
  case (Cons r rs)
  have "isplit_from ((r @ [splitter]) @ concat (map (\<lambda>r. r @ [splitter]) rs)) splitter [] =
      isplit_from (r @ [splitter]) splitter [] @
      isplit_from (concat (map (\<lambda>r. r @ [splitter]) rs)) splitter []"
    by (rule isplit_from_append)
  then show ?case using Cons isplit_from_group[of splitter r "[]"]
    by (simp add: isplit_def)
qed

lemma traverse_map_Inr: "\<forall>a \<in> set as. f (h a) = Inr a \<Longrightarrow> traverse f (map h as) = Inr as"
  by (induction as) auto

lemma length_without_trailing_zeros: "length (without_trailing_zeros seq) \<le> length seq"
  unfolding without_trailing_zeros_def using length_dropWhile_le[of _ "rev seq"] by simp


lemma block_items:
  "map (\<lambda>k. cell b (zig_zag_pos sz k)) [0..<Suc n] =
     cell b (0, 0) # map (\<lambda>k. cell b (zig_zag_pos sz k)) [1..<Suc n]"
proof -
  have "[0..<Suc n] = 0 # [1..<Suc n]" by (simp add: upt_rec)
  then show ?thesis by (simp add: zig_zag_pos_def del: upt_Suc)
qed

lemma block_rebuilt:
  assumes "square 8 b"
  shows "inverse_iter_zig_zag garbage
     (cell b (0, 0) # without_trailing_zeros (map (\<lambda>k. cell b (zig_zag_pos 8 k)) [1..<64]))
     (Some 8) 0 = Inr b"
proof -
  let ?ac = "map (\<lambda>k. cell b (zig_zag_pos 8 k)) [1..<64]"
  let ?vs = "cell b (0, 0) # without_trailing_zeros ?ac"
  have lac: "length ?ac = 63" by simp
  have lw: "length (without_trailing_zeros ?ac) \<le> 63"
    using length_without_trailing_zeros[of ?ac] by simp
  have "without_trailing_zeros ?ac @ replicate (63 - length (without_trailing_zeros ?ac)) 0 = ?ac"
    using without_trailing_zeros_pad[of ?ac] by simp
  then have "?vs @ replicate (8 * 8 - length ?vs) 0 = cell b (0, 0) # ?ac" by simp
  also have "\<dots> = map (\<lambda>k. cell b (zig_zag_pos 8 k)) [0..<8 * 8]"
    using block_items[of b 8 63] by simp
  finally have all: "?vs @ replicate (8 * 8 - length ?vs) 0 =
      map (\<lambda>k. cell b (zig_zag_pos 8 k)) [0..<8 * 8]" .
  show ?thesis
  proof (rule inverse_iter_zig_zag_ok[OF _ assms])
    show "(1::nat) \<le> 8" by simp
    show "length ?vs \<le> 8 * 8" using lw by simp
    show "\<forall>k<8 * 8. (?vs @ replicate (8 * 8 - length ?vs) 0) ! k = cell b (zig_zag_pos 8 k)"
      unfolding all by simp
  qed
qed


lemma block_ac_rebuilt:
  "square 8 b \<Longrightarrow> inverse_iter_zig_zag garbage (cell b (0, 0) # block_ac b) (Some 8) 0 = Inr b"
  unfolding block_ac_def by (rule block_rebuilt)

lemma layer_symbols:
  assumes sq: "\<forall>b \<in> set bs. square 8 b"
    and ac: "\<forall>b \<in> set bs. \<forall>c. in_range 8 c \<and> c \<noteq> (0, 0) \<longrightarrow> \<bar>cell b c\<bar> \<le> 1023"
  shows "\<exists>rs. length rs = length bs \<and>
    get_run_length_ac bs = Inr (concat (map (\<lambda>r. r @ [EOB]) rs)) \<and>
    (\<forall>r \<in> set rs. EOB \<notin> set r) \<and>
    map flat rs = map block_ac bs \<and>
    (\<forall>r \<in> set rs. \<forall>p \<in> set r. \<exists>c. encode_huffman (ACValue p) layer_type = Inr c)"
  using assms
proof (induction bs)
  case Nil
  then show ?case by (simp add: get_run_length_ac_def)
next
  case (Cons b bs)
  then obtain rs where rs: "length rs = length bs"
    "get_run_length_ac bs = Inr (concat (map (\<lambda>r. r @ [EOB]) rs))"
    "\<forall>r \<in> set rs. EOB \<notin> set r" "map flat rs = map block_ac bs"
    "\<forall>r \<in> set rs. \<forall>p \<in> set r. \<exists>c. encode_huffman (ACValue p) layer_type = Inr c"
    by auto
  have sqb: "square 8 b" using Cons.prems(1) by simp
  have "(2::nat) \<le> 8" by simp
  from block_run_length_ok[OF sqb this] obtain r where
    r: "block_run_length b = Inr (r @ [EOB])" "EOB \<notin> set r" "flat r = block_ac b"
      "\<forall>p \<in> set r. valid_symbol ((\<lambda>k. cell b (zig_zag_pos 8 k)) ` {1..<8 * 8}) p"
    by (auto simp: block_ac_def)
  have enc: "\<exists>c. encode_huffman (ACValue p) layer_type = Inr c" if "p \<in> set r" for p
  proof -
    have v: "valid_symbol ((\<lambda>k. cell b (zig_zag_pos 8 k)) ` {1..<8 * 8}) p"
      using r(4) that by blast
    show ?thesis
    proof (cases "p = ZRL")
      case True
      then show ?thesis using encode_EOB_ZRL_ok[of p layer_type] by simp
    next
      case False
      then obtain k where k: "fst p \<le> 15" "snd p \<noteq> 0" "1 \<le> k" "k < 8 * 8"
        "snd p = cell b (zig_zag_pos 8 k)"
        using v by (auto simp: valid_symbol_def)
      have "(1::nat) \<le> 8" by simp
      from zig_zag_count[OF this] k(4) have inr: "in_range 8 (zig_zag_pos 8 k)" by blast
      have "zig_zag_pos 8 k \<noteq> zig_zag_pos 8 0" using pos_inj[of 8 k 0] k(3) by auto
      then have "zig_zag_pos 8 k \<noteq> (0, 0)" by (simp add: zig_zag_pos_def)
      moreover have "\<forall>c. in_range 8 c \<and> c \<noteq> (0, 0) \<longrightarrow> \<bar>cell b c\<bar> \<le> 1023"
        using Cons.prems(2) by (simp only: list.set insert_iff ball_simps) blast
      ultimately have "\<bar>snd p\<bar> \<le> 1023" using inr k(5) by metis
      then have "\<bar>snd p\<bar> < 1024" by simp
      from encode_AC_ok[OF k(1,2) this, of layer_type] show ?thesis by simp
    qed
  qed
  obtain seqs where seqs: "traverse block_run_length bs = Inr seqs"
    "concat seqs = concat (map (\<lambda>r. r @ [EOB]) rs)"
    using rs(2) by (auto simp: get_run_length_ac_def split: sum.splits)
  have g: "get_run_length_ac (b # bs) = Inr (concat (map (\<lambda>r. r @ [EOB]) (r # rs)))"
    using r(1) seqs by (simp add: get_run_length_ac_def)
  show ?case
    using g rs(1,3,4,5) r(2,3) enc
    by (intro exI[of _ "r # rs"]) auto
qed

lemma layer_roundtrip:
  assumes sq: "\<forall>b \<in> set bs. square 8 b"
    and dc: "\<forall>d \<in> set (encode_differential Unbounded (map (\<lambda>b. cell b (0, 0)) bs)).
        \<bar>d\<bar> \<le> 2047 \<and> fits dt d"
    and ac: "\<forall>b \<in> set bs. \<forall>c. in_range 8 c \<and> c \<noteq> (0, 0) \<longrightarrow> \<bar>cell b c\<bar> \<le> 1023"
  shows "\<exists>diffs syms dc_bits ac_bits.
    get_diff_dc dt bs = Inr diffs \<and> encode_all (map DCValue diffs) layer_type = Inr dc_bits \<and>
    get_run_length_ac bs = Inr syms \<and> encode_all (map ACValue syms) layer_type = Inr ac_bits \<and>
    get_dc dc_bits layer_type = Inr (map (\<lambda>b. cell b (0, 0)) bs) \<and>
    get_ac ac_bits layer_type = Inr (map block_ac bs) \<and>
    shaped garbage (map (\<lambda>b. cell b (0, 0)) bs) (map block_ac bs) = Inr bs"
proof -
  let ?dcs = "map (\<lambda>b. cell b (0, 0)) bs"
  let ?diffs = "encode_differential Unbounded ?dcs"
  have "traverse dc_coefficient bs = Inr ?dcs"
    using sq by (intro traverse_Inr) (auto intro: dc_coefficient_ok)
  moreover have "encode_differential dt ?dcs = ?diffs"
    using dc by (intro encode_differential_no_wrap) blast
  ultimately have 1: "get_diff_dc dt bs = Inr ?diffs" by (simp add: get_diff_dc_def)
  have "\<forall>v \<in> set (map DCValue ?diffs). \<exists>c. encode_huffman v layer_type = Inr c"
  proof
    fix v assume "v \<in> set (map DCValue ?diffs)"
    then obtain d where d: "v = DCValue d" "d \<in> set ?diffs" by auto
    then have "\<bar>d\<bar> < 2048" using dc by fastforce
    from encode_DC_ok[OF this, of layer_type] show "\<exists>c. encode_huffman v layer_type = Inr c"
      using d(1) by simp
  qed
  from encode_all_ok[OF this] obtain dc_bits where
    2: "encode_all (map DCValue ?diffs) layer_type = Inr dc_bits" by blast
  from layer_symbols[OF sq ac, of layer_type] obtain rs where rs: "length rs = length bs"
    "get_run_length_ac bs = Inr (concat (map (\<lambda>r. r @ [EOB]) rs))"
    "\<forall>r \<in> set rs. EOB \<notin> set r" "map flat rs = map block_ac bs"
    "\<forall>r \<in> set rs. \<forall>p \<in> set r. \<exists>c. encode_huffman (ACValue p) layer_type = Inr c"
    by blast
  let ?syms = "concat (map (\<lambda>r. r @ [EOB]) rs)"
  have "\<forall>v \<in> set (map ACValue ?syms). \<exists>c. encode_huffman v layer_type = Inr c"
  proof
    fix v assume "v \<in> set (map ACValue ?syms)"
    then obtain p where p: "v = ACValue p" "p \<in> set ?syms" by auto
    then consider r where "r \<in> set rs" "p \<in> set r" | "p = EOB"
      by (auto split: if_splits)
    then show "\<exists>c. encode_huffman v layer_type = Inr c"
    proof cases
      case 1
      then show ?thesis using rs(5) p(1) by blast
    next
      case 2
      then show ?thesis using encode_EOB_ZRL_ok[of p layer_type] p(1) by simp
    qed
  qed
  from encode_all_ok[OF this] obtain ac_bits where
    4: "encode_all (map ACValue ?syms) layer_type = Inr ac_bits" by blast
  have "decode_huffman dc_bits DC layer_type = Inr (map DCValue ?diffs)"
    by (rule decode_huffman_encode_all[OF 2]) (auto simp: mode_of_def)
  then have 5: "get_dc dc_bits layer_type = Inr ?dcs"
    by (simp add: get_dc_def dc_values_map differential_roundtrip)
  have "decode_huffman ac_bits AC layer_type = Inr (map ACValue ?syms)"
    by (rule decode_huffman_encode_all[OF 4]) (auto simp: mode_of_def)
  moreover have "map decode_run_length (map (\<lambda>r. r @ [EOB]) rs) = map flat rs"
    by (simp add: decode_run_length_EOB)
  ultimately have 6: "get_ac ac_bits layer_type = Inr (map block_ac bs)"
    using isplit_groups[OF rs(3)] rs(4) by (simp add: get_ac_def ac_values_map)
  have "zip ?dcs (map block_ac bs) = map (\<lambda>b. (cell b (0, 0), block_ac b)) bs"
    by (induction bs) auto
  moreover have "traverse (\<lambda>(dc, ac). inverse_iter_zig_zag garbage (dc # ac) (Some 8) 0)
      (map (\<lambda>b. (cell b (0, 0), block_ac b)) bs) = Inr bs"
    using sq by (intro traverse_map_Inr) (auto intro: block_ac_rebuilt)
  ultimately have 7: "shaped garbage ?dcs (map block_ac bs) = Inr bs"
    by (simp add: shaped_def)
  show ?thesis using 1 2 rs(2) 4 5 6 7 by blast
qed


lemma bounded_cells:
  assumes "square sz b" "list_all (list_all (\<lambda>v. \<bar>v\<bar> \<le> n)) b" "in_range sz c"
  shows "\<bar>cell b c\<bar> \<le> n"
proof -
  have "snd c < length b" "fst c < length (b ! snd c)"
    using assms(1,3) square_nth[OF assms(1), of "snd c"] by (auto simp: square_def in_range_def)
  then show ?thesis using assms(2) by (simp add: cell_def list_all_length)
qed


lemma upt_2: "[0..<2] = [0, Suc 0]"
  by (simp add: upt_rec)

lemma int8_differences:
  "encode_differential Unbounded [127, -128] = [127, -255]"
  "encode_differential (Signed 8) [127, -128] = [127, 1]"
  "encode_differential (Signed 8) [0, 0] = [0, 0]"
  by (simp_all add: encode_differential_def upt_2)

lemma int8_diff_dc:
  "get_diff_dc (Signed 8) [dc_block 127, dc_block (-128)] = Inr [127, 1]"
  "get_diff_dc (Signed 8) [dc_block 0, dc_block 0] = Inr [0, 0]"
  by (simp_all add: get_diff_dc_def dc_coefficient_def dc_block_def int8_differences)

lemma format_bin_127: "format_bin 127 7 = ''1111111''"
  by code_simp

lemma format_bin_1: "format_bin (Suc 0) (Suc 0) = ''1''"
  by code_simp

lemma int8_dc_bits:
  "encode_all [DCValue 127, DCValue 1] LUMINANCE = Inr ''1111011111110101''"
  by (simp add: category_7 category_1 lookup_def HUFFMAN_CATEGORY_CODEWORD_DC_def
      DC_LUMINANCE_CODEWORD_def format_bin_127 format_bin_1)

lemma zero_dc_bits: "encode_all [DCValue 0, DCValue 0] CHROMINANCE = Inr ''0000''"
  by (simp add: index_2d_zero lookup_def HUFFMAN_CATEGORY_CODEWORD_DC_def
      DC_CHROMINANCE_CODEWORD_def)

lemma dc_block_symbols: "block_run_length (dc_block d) = Inr [EOB]"
  by code_simp

lemma dc_blocks_symbols: "get_run_length_ac [dc_block d, dc_block e] = Inr [EOB, EOB]"
  by (simp add: get_run_length_ac_def dc_block_symbols)

lemma eob_bits:
  "encode_all [ACValue EOB, ACValue EOB] LUMINANCE = Inr ''10101010''"
  "encode_all [ACValue EOB, ACValue EOB] CHROMINANCE = Inr ''0000''"
  by (simp_all add: EOB_def ZRL_def lookup_def HUFFMAN_CATEGORY_CODEWORD_AC_def
      AC_LUMINANCE_CODEWORD_def AC_CHROMINANCE_CODEWORD_def)

lemma int8_encoded:
  "encode (Signed 8) (Signed 8)
     \<lparr>Y = [dc_block 127, dc_block (-128)], Cb = [dc_block 0], Cr = [dc_block 0]\<rparr> =
   Inr \<lparr>dc_luminance = ''1111011111110101'', dc_chrominance = ''0000'',
        ac_luminance = ''10101010'', ac_chrominance = ''0000''\<rparr>"
  by (simp add: encode_def layer_blocks_def int8_diff_dc int8_dc_bits zero_dc_bits
      dc_blocks_symbols eob_bits del: encode_all.simps)

lemma int8_decoded_dc: "get_dc ''1111011111110101'' LUMINANCE = Inr [127, 128]"
proof -
  have "decode_huffman ''1111011111110101'' DC LUMINANCE = Inr [DCValue 127, DCValue 1]"
    by (rule decode_huffman_encode_all[OF int8_dc_bits]) (simp add: mode_of_def)
  then show ?thesis by (simp add: get_dc_def dc_values_def decode_differential_def)
qed

lemma decoded_ac_luminance_2: "get_ac ''10101010'' LUMINANCE = Inr [[], []]"
  by code_simp

lemma shaped_dc_blocks: "shaped zeroed [d, e] [[], []] = Inr [dc_block d, dc_block e]"
  by code_simp

text \<open>
  Claim C1 says that decoding the encoder's bit strings returns the original blocks whenever
  the differential DC values and the AC coefficients are within their ranges. Take arrays of
  dtype \<open>int8\<close>: two luminance blocks with the DC coefficients 127 and -128 and no AC
  coefficient, and one zero block each for cb and cr. The exact difference -255 is within
  \<open>[-2047, 2047]\<close>, but the encoder subtracts \<open>int8\<close> scalars and gets 1, which is within the
  range too; the decoder returns the DC coefficient 128 for the second block.
\<close>

theorem codec_roundtrip_counterexample:
  "list_all (square 8) [dc_block 127, dc_block (-128), dc_block 0, dc_block 0] \<and>
   fits (Signed 8) 127 \<and> fits (Signed 8) (-128) \<and> fits (Signed 8) 0 \<and>
   encode_differential Unbounded [127, -128] = [127, -255] \<and>
   encode_differential (Signed 8) [127, -128] = [127, 1] \<and>
   encode (Signed 8) (Signed 8)
     \<lparr>Y = [dc_block 127, dc_block (-128)], Cb = [dc_block 0], Cr = [dc_block 0]\<rparr> =
     Inr \<lparr>dc_luminance = ''1111011111110101'', dc_chrominance = ''0000'',
          ac_luminance = ''10101010'', ac_chrominance = ''0000''\<rparr> \<and>
   decode zeroed
     \<lparr>dc_luminance = ''1111011111110101'', dc_chrominance = ''0000'',
      ac_luminance = ''10101010'', ac_chrominance = ''0000''\<rparr> =
     Inr \<lparr>Y = [dc_block 127, dc_block 128], Cb = [dc_block 0], Cr = [dc_block 0]\<rparr> \<and>
   dc_block 128 \<noteq> dc_block (-128)"
proof -
  have sq: "list_all (square 8) [dc_block 127, dc_block (-128), dc_block 0, dc_block 0]"
    by (simp add: square_def dc_block_def list_all_length nth_Cons split: nat.splits)
  have f: "fits (Signed 8) 127 \<and> fits (Signed 8) (-128) \<and> fits (Signed 8) 0"
    by (simp add: fits_def)
  have "np_split2 [dc_block 0, dc_block 0] = Inr ([dc_block 0], [dc_block 0])"
    by (simp add: np_split2_def)
  then have d: "decode zeroed
     \<lparr>dc_luminance = ''1111011111110101'', dc_chrominance = ''0000'',
      ac_luminance = ''10101010'', ac_chrominance = ''0000''\<rparr> =
     Inr \<lparr>Y = [dc_block 127, dc_block 128], Cb = [dc_block 0], Cr = [dc_block 0]\<rparr>"
    by (simp add: decode_def int8_decoded_dc decoded_dc_chrominance_2 decoded_ac_luminance_2
        decoded_ac_chrominance_2 shaped_dc_blocks)
  have n: "dc_block 128 \<noteq> dc_block (-128)" by (simp add: dc_block_def)
  show ?thesis using sq f int8_differences(1,2) int8_encoded d n by blast
qed

text \<open>
  Claim C1, amended. Let the input hold 8 by 8 integer blocks under y, cb and cr, with as many
  cb as cr blocks and at least one block in each layer, every AC coefficient within
  \<open>[-1023, 1023]\<close>, and every exact differential DC value of the luminance layer and of the
  chrominance layer (cb followed by cr) within \<open>[-2047, 2047]\<close> and among the values of the
  dtype of the layer's array, so that the subtraction of the encoder does not wrap around. Then
  the encoder returns four bit strings, and the decoder returns from them exactly the original
  y, cb and cr sequences, in their order.
\<close>

theorem codec_roundtrip:
  assumes blocks: "\<forall>b \<in> set (Y data @ Cb data @ Cr data). square 8 b"
    and halves: "length (Cb data) = length (Cr data)"
    and nonempty: "Y data \<noteq> []" "Cb data @ Cr data \<noteq> []"
    and dc_y: "\<forall>d \<in> set (encode_differential Unbounded (map (\<lambda>b. cell b (0, 0)) (Y data))).
        \<bar>d\<bar> \<le> 2047 \<and> fits dtype_y d"
    and dc_c: "\<forall>d \<in> set (encode_differential Unbounded
          (map (\<lambda>b. cell b (0, 0)) (Cb data @ Cr data))).
        \<bar>d\<bar> \<le> 2047 \<and> fits dtype_c d"
    and ac: "\<forall>b \<in> set (Y data @ Cb data @ Cr data).
        \<forall>c. in_range 8 c \<and> c \<noteq> (0, 0) \<longrightarrow> \<bar>cell b c\<bar> \<le> 1023"
  shows "\<exists>encoded. encode dtype_y dtype_c data = Inr encoded \<and>
    decode garbage encoded = Inr data"
proof -
  let ?l = "Y data" and ?c = "Cb data @ Cr data"
  have sq_l: "\<forall>b \<in> set ?l. square 8 b" and sq_c: "\<forall>b \<in> set ?c. square 8 b"
    using blocks by auto
  have ac_l: "\<forall>b \<in> set ?l. \<forall>c. in_range 8 c \<and> c \<noteq> (0, 0) \<longrightarrow> \<bar>cell b c\<bar> \<le> 1023"
    and ac_c: "\<forall>b \<in> set ?c. \<forall>c. in_range 8 c \<and> c \<noteq> (0, 0) \<longrightarrow> \<bar>cell b c\<bar> \<le> 1023"
    using ac by auto
  from layer_roundtrip[OF sq_l dc_y ac_l, of LUMINANCE garbage]
  obtain diffs_l syms_l dc_l ac_bits_l where l:
    "get_diff_dc dtype_y ?l = Inr diffs_l" "encode_all (map DCValue diffs_l) LUMINANCE = Inr dc_l"
    "get_run_length_ac ?l = Inr syms_l" "encode_all (map ACValue syms_l) LUMINANCE = Inr ac_bits_l"
    "get_dc dc_l LUMINANCE = Inr (map (\<lambda>b. cell b (0, 0)) ?l)"
    "get_ac ac_bits_l LUMINANCE = Inr (map block_ac ?l)"
    "shaped garbage (map (\<lambda>b. cell b (0, 0)) ?l) (map block_ac ?l) = Inr ?l"
    by blast
  from layer_roundtrip[OF sq_c dc_c ac_c, of CHROMINANCE garbage]
  obtain diffs_c syms_c dc_c' ac_bits_c where c:
    "get_diff_dc dtype_c ?c = Inr diffs_c" "encode_all (map DCValue diffs_c) CHROMINANCE = Inr dc_c'"
    "get_run_length_ac ?c = Inr syms_c" "encode_all (map ACValue syms_c) CHROMINANCE = Inr ac_bits_c"
    "get_dc dc_c' CHROMINANCE = Inr (map (\<lambda>b. cell b (0, 0)) ?c)"
    "get_ac ac_bits_c CHROMINANCE = Inr (map block_ac ?c)"
    "shaped garbage (map (\<lambda>b. cell b (0, 0)) ?c) (map block_ac ?c) = Inr ?c"
    by blast
  let ?enc = "\<lparr>dc_luminance = dc_l, dc_chrominance = dc_c',
      ac_luminance = ac_bits_l, ac_chrominance = ac_bits_c\<rparr>"
  have e: "encode dtype_y dtype_c data = Inr ?enc"
    using l(1-4) c(1-4) by (simp add: encode_def layer_blocks_def)
  have even: "length ?c mod 2 = 0" using halves by simp
  have split: "np_split2 ?c = Inr (Cb data, Cr data)"
    using halves by (simp add: np_split2_def)
  have "decode garbage ?enc = Inr \<lparr>Y = Y data, Cb = Cb data, Cr = Cr data\<rparr>"
    unfolding decode_def using l(5-7) c(5-7) even split by simp
  then have "decode garbage ?enc = Inr data" by simp
  then show ?thesis using e by blast
qed

theorem codec_roundtrip_witness:
  "\<exists>encoded.
     encode (Signed 8) (Signed 8)
       \<lparr>Y = [(5 # 3 # replicate 6 0) # (-2 # replicate 7 0) # replicate 6 (replicate 8 0)],
        Cb = [(10 # replicate 7 0) # replicate 7 (replicate 8 0)],
        Cr = [(7 # replicate 7 0) # replicate 7 (replicate 8 0)]\<rparr> = Inr encoded \<and>
     decode zeroed encoded =
       Inr \<lparr>Y = [(5 # 3 # replicate 6 0) # (-2 # replicate 7 0) # replicate 6 (replicate 8 0)],
            Cb = [(10 # replicate 7 0) # replicate 7 (replicate 8 0)],
            Cr = [(7 # replicate 7 0) # replicate 7 (replicate 8 0)]\<rparr>"
proof -
  let ?y = "(5 # 3 # replicate 6 0) # (-2 # replicate 7 0) # replicate 6 (replicate 8 (0::int))"
  let ?cb = "(10 # replicate 7 0) # replicate 7 (replicate 8 (0::int))"
  let ?cr = "(7 # replicate 7 0) # replicate 7 (replicate 8 (0::int))"
  let ?data = "\<lparr>Y = [?y], Cb = [?cb], Cr = [?cr]\<rparr>"
  have sq: "square 8 ?y" "square 8 ?cb" "square 8 ?cr"
    by (simp_all add: square_def list_all_length nth_Cons split: nat.splits)
  have small: "list_all (list_all (\<lambda>v. \<bar>v\<bar> \<le> 1023)) ?y"
    "list_all (list_all (\<lambda>v. \<bar>v\<bar> \<le> 1023)) ?cb"
    "list_all (list_all (\<lambda>v. \<bar>v\<bar> \<le> 1023)) ?cr"
    by (simp_all add: list_all_length nth_Cons split: nat.splits)
  have 1: "\<forall>b \<in> set (Y ?data @ Cb ?data @ Cr ?data). square 8 b"
    using sq by simp
  have 2: "\<forall>b \<in> set (Y ?data @ Cb ?data @ Cr ?data).
      \<forall>c. in_range 8 c \<and> c \<noteq> (0, 0) \<longrightarrow> \<bar>cell b c\<bar> \<le> 1023"
    using bounded_cells[OF sq(1) small(1)] bounded_cells[OF sq(2) small(2)]
      bounded_cells[OF sq(3) small(3)] by simp
  have 3: "\<forall>d \<in> set (encode_differential Unbounded (map (\<lambda>b. cell b (0, 0)) (Y ?data))).
      \<bar>d\<bar> \<le> 2047 \<and> fits (Signed 8) d"
    by (simp add: encode_differential_def cell_def fits_def)
  have "[0..<2] = [0, Suc 0]" by (simp add: upt_rec)
  then have 4: "\<forall>d \<in> set (encode_differential Unbounded
        (map (\<lambda>b. cell b (0, 0)) (Cb ?data @ Cr ?data))).
      \<bar>d\<bar> \<le> 2047 \<and> fits (Signed 8) d"
    by (simp add: encode_differential_def cell_def fits_def)
  show ?thesis
    by (rule codec_roundtrip[OF 1 _ _ _ 3 4 2]) simp_all
qed

end
